theory Spec2Isabelle
  imports Main
begin

section \<open>Data model of \<open>main.py\<close>\<close>

text \<open>
  The four members of the enumeration \<open>Direction\<close>, in the order of their
  declaration (which is the order in which \<open>for direction in Direction\<close> visits them),
  their values, and the lookup of a member by value, which raises \<open>ValueError\<close> in
  Python when no member has the value.
\<close>

datatype Direction = NORTH | SOUTH | EAST | WEST

datatype error = IndexError | KeyError | ValueError

type_synonym pos = "int \<times> int"

fun Direction_value :: "Direction \<Rightarrow> pos" where
  "Direction_value NORTH = (0, -1)"
| "Direction_value SOUTH = (0, 1)"
| "Direction_value EAST = (1, 0)"
| "Direction_value WEST = (-1, 0)"

definition Direction_members :: "Direction list" where
  "Direction_members = [NORTH, SOUTH, EAST, WEST]"

definition Direction_of_value :: "pos \<Rightarrow> error + Direction" where
  "Direction_of_value v =
     (if v = (0, -1) then Inr NORTH
      else if v = (0, 1) then Inr SOUTH
      else if v = (1, 0) then Inr EAST
      else if v = (-1, 0) then Inr WEST
      else Inl ValueError)"

fun opposite :: "Direction \<Rightarrow> Direction" where
  "opposite NORTH = SOUTH"
| "opposite SOUTH = NORTH"
| "opposite EAST = WEST"
| "opposite WEST = EAST"

text \<open>
  Class \<open>Cell\<close>. The attribute \<open>walls\<close> is a dictionary from directions to booleans;
  \<open>has_wall\<close> reads it with \<open>walls.get(direction, True)\<close>. The coordinates are the
  fields \<open>cell_x\<close> and \<open>cell_y\<close>.
\<close>

record Cell =
  cell_x :: int
  cell_y :: int
  walls :: "Direction \<rightharpoonup> bool"
  visited :: bool
  is_start :: bool
  is_end :: bool

definition Cell_init :: "int \<Rightarrow> int \<Rightarrow> Cell" where
  "Cell_init x y =
     \<lparr>cell_x = x, cell_y = y, walls = (\<lambda>d. Some True), visited = False,
      is_start = False, is_end = False\<rparr>"

definition remove_wall :: "Direction \<Rightarrow> Cell \<Rightarrow> Cell" where
  "remove_wall direction c = c\<lparr>walls := (walls c)(direction \<mapsto> False)\<rparr>"

definition has_wall :: "Cell \<Rightarrow> Direction \<Rightarrow> bool" where
  "has_wall c direction = (case walls c direction of None \<Rightarrow> True | Some b \<Rightarrow> b)"

text \<open>
  Class \<open>Maze\<close>. The attribute \<open>end\<close> is the field \<open>end_pos\<close>; \<open>cells\<close> is a list
  of columns, \<open>cells[x][y]\<close>.
\<close>

record Maze =
  width :: int
  height :: int
  cell_size :: int
  cells :: "Cell list list"
  start :: pos
  end_pos :: pos

text \<open>
  Indexing a Python list: a negative index counts from the end, and an index out of
  range raises \<open>IndexError\<close>.
\<close>

definition py_index :: "'a list \<Rightarrow> int \<Rightarrow> nat option" where
  "py_index xs i =
     (if 0 \<le> i then (if i < int (length xs) then Some (nat i) else None)
      else (if - int (length xs) \<le> i then Some (nat (int (length xs) + i)) else None))"

definition locate :: "'a list list \<Rightarrow> int \<Rightarrow> int \<Rightarrow> (nat \<times> nat) option" where
  "locate cs x y =
     (case py_index cs x of
        None \<Rightarrow> None
      | Some i \<Rightarrow> (case py_index (cs ! i) y of None \<Rightarrow> None | Some j \<Rightarrow> Some (i, j)))"

definition cell_at :: "Cell list list \<Rightarrow> int \<Rightarrow> int \<Rightarrow> error + Cell" where
  "cell_at cs x y =
     (case locate cs x y of None \<Rightarrow> Inl IndexError | Some (i, j) \<Rightarrow> Inr (cs ! i ! j))"

text \<open>
  Mutation of the object \<open>cells[x][y]\<close>. Every position of the grid holds an object of
  its own, so mutating the object is updating the position. The lookup has succeeded
  whenever the source mutates a cell; elsewhere the grid is left as it is.
\<close>

definition update2 :: "'a list list \<Rightarrow> nat \<Rightarrow> nat \<Rightarrow> ('a \<Rightarrow> 'a) \<Rightarrow> 'a list list" where
  "update2 cs i j f = cs[i := (cs ! i)[j := f (cs ! i ! j)]]"

definition cell_update :: "Cell list list \<Rightarrow> int \<Rightarrow> int \<Rightarrow> (Cell \<Rightarrow> Cell) \<Rightarrow> Cell list list" where
  "cell_update cs x y f =
     (case locate cs x y of None \<Rightarrow> cs | Some (i, j) \<Rightarrow> update2 cs i j f)"

definition in_bounds :: "Maze \<Rightarrow> pos \<Rightarrow> bool" where
  "in_bounds m p = (0 \<le> fst p \<and> fst p < width m \<and> 0 \<le> snd p \<and> snd p < height m)"

definition grid :: "Maze \<Rightarrow> pos set" where
  "grid m = {p. in_bounds m p}"

text \<open>\<open>Maze._get_neighbors\<close>\<close>

definition get_neighbors :: "Maze \<Rightarrow> int \<Rightarrow> int \<Rightarrow> pos list" where
  "get_neighbors m x y =
     filter (in_bounds m)
       (map (\<lambda>(dx, dy). (x + dx, y + dy)) [(0, 1), (1, 0), (0, -1), (-1, 0)])"

text \<open>
  \<open>Maze._get_connected_neighbors\<close>: the loop over the directions. The cell
  \<open>cells[x][y]\<close> is read only for a direction whose neighbour is within bounds
  (\<open>and\<close> does not evaluate its right operand otherwise).
\<close>

fun connected_from :: "Maze \<Rightarrow> int \<Rightarrow> int \<Rightarrow> Direction list \<Rightarrow> error + pos list" where
  "connected_from m x y [] = Inr []"
| "connected_from m x y (direction # ds) =
     (let nx = x + fst (Direction_value direction);
          ny = y + snd (Direction_value direction)
      in if in_bounds m (nx, ny) then
           (case cell_at (cells m) x y of
              Inl e \<Rightarrow> Inl e
            | Inr c \<Rightarrow>
                (case connected_from m x y ds of
                   Inl e \<Rightarrow> Inl e
                 | Inr connected \<Rightarrow>
                     Inr (if \<not> has_wall c direction then (nx, ny) # connected else connected)))
         else connected_from m x y ds)"

definition get_connected_neighbors :: "Maze \<Rightarrow> int \<Rightarrow> int \<Rightarrow> error + pos list" where
  "get_connected_neighbors m x y = connected_from m x y Direction_members"

section \<open>The generator\<close>

text \<open>
  The generator draws from the ambient generator of the library module \<open>random\<close>,
  which is state of the process. That state is the sequence of the draws to come;
  \<open>random.choice(seq)\<close> consumes one draw and returns \<open>seq[k]\<close> for an index \<open>k\<close>
  below \<open>len(seq)\<close>.
\<close>

type_synonym rng = "nat \<Rightarrow> nat"

definition random_choice :: "rng \<Rightarrow> 'a list \<Rightarrow> 'a \<times> rng" where
  "random_choice r xs = (xs ! (r 0 mod length xs), (\<lambda>i. r (Suc i)))"

text \<open>
  The list comprehension of \<open>_generate_maze\<close>, which keeps the neighbours whose cell
  is not visited; it reads \<open>cells[nx][ny]\<close> for each of them.
\<close>

fun unvisited_of :: "Cell list list \<Rightarrow> pos list \<Rightarrow> error + pos list" where
  "unvisited_of cs [] = Inr []"
| "unvisited_of cs (n # ns) =
     (case cell_at cs (fst n) (snd n) of
        Inl e \<Rightarrow> Inl e
      | Inr c \<Rightarrow>
          (case unvisited_of cs ns of
             Inl e \<Rightarrow> Inl e
           | Inr r \<Rightarrow> Inr (if \<not> visited c then n # r else r)))"

text \<open>
  One iteration of the \<open>while stack\<close> loop of \<open>_generate_maze\<close>, for a stack that is
  not empty. The top of the stack is the end of the list.
\<close>

definition carve :: "Maze \<Rightarrow> pos \<Rightarrow> pos \<Rightarrow> Direction \<Rightarrow> Maze" where
  "carve m c n direction =
     m\<lparr>cells :=
         cell_update
           (cell_update
              (cell_update (cells m) (fst c) (snd c) (remove_wall direction))
              (fst n) (snd n) (remove_wall (opposite direction)))
           (fst n) (snd n) (\<lambda>c. c\<lparr>visited := True\<rparr>)\<rparr>"

definition generate_step :: "Maze \<Rightarrow> pos list \<Rightarrow> rng \<Rightarrow> error + Maze \<times> pos list \<times> rng" where
  "generate_step m stack r =
     (case cell_at (cells m) (fst (last stack)) (snd (last stack)) of
        Inl e \<Rightarrow> Inl e
      | Inr current \<Rightarrow>
          (case unvisited_of (cells m) (get_neighbors m (fst (last stack)) (snd (last stack))) of
             Inl e \<Rightarrow> Inl e
           | Inr neighbors \<Rightarrow>
               if neighbors = [] then Inr (m, butlast stack, r)
               else
                 (case cell_at (cells m) (fst (fst (random_choice r neighbors)))
                         (snd (fst (random_choice r neighbors))) of
                    Inl e \<Rightarrow> Inl e
                  | Inr neighbor \<Rightarrow>
                      (case Direction_of_value
                              (fst (fst (random_choice r neighbors)) - fst (last stack),
                               snd (fst (random_choice r neighbors)) - snd (last stack)) of
                         Inl e \<Rightarrow> Inl e
                       | Inr direction \<Rightarrow>
                           Inr (carve m (last stack) (fst (random_choice r neighbors)) direction,
                                stack @ [fst (random_choice r neighbors)],
                                snd (random_choice r neighbors))))))"

definition unvisited_count :: "Cell list list \<Rightarrow> nat" where
  "unvisited_count cs =
     sum_list (map (\<lambda>col. sum_list (map (\<lambda>c. if visited c then 0 else 1) col)) cs)"

definition generate_measure :: "Maze \<times> pos list \<times> rng \<Rightarrow> nat" where
  "generate_measure s = 2 * unvisited_count (cells (fst s)) + length (fst (snd s))"

lemma py_index_less: "py_index xs i = Some k \<Longrightarrow> k < length xs"
  by (auto simp: py_index_def split: if_splits)

lemma locate_less: "locate cs x y = Some (i, j) \<Longrightarrow> i < length cs \<and> j < length (cs ! i)"
  by (auto simp: locate_def py_index_less split: option.splits)

lemma length_update2 [simp]: "length (update2 cs i j f) = length cs"
  by (simp add: update2_def)

lemma length_nth_update2 [simp]: "length (update2 cs i j f ! k) = length (cs ! k)"
  by (cases "i < length cs") (auto simp: update2_def nth_list_update list_update_beyond)

lemma py_index_cong: "length xs = length ys \<Longrightarrow> py_index xs i = py_index ys i"
  by (simp add: py_index_def)

lemma locate_update2 [simp]: "locate (update2 cs i j f) x y = locate cs x y"
  by (auto simp: locate_def py_index_def split: option.splits)

lemma nth_update2:
  "i < length cs \<Longrightarrow> j < length (cs ! i) \<Longrightarrow>
   update2 cs i j f ! i' ! j' = (if i' = i \<and> j' = j then f (cs ! i ! j) else cs ! i' ! j')"
  by (auto simp: update2_def nth_list_update)

definition col_count :: "Cell list \<Rightarrow> nat" where
  "col_count col = sum_list (map (\<lambda>c. if visited c then 0 else 1) col)"

lemma col_count_update:
  "j < length col \<Longrightarrow>
   col_count (col[j := c]) + (if visited (col ! j) then 0 else 1)
     = col_count col + (if visited c then 0 else 1)"
proof (induction col arbitrary: j)
  case Nil
  then show ?case by simp
next
  case (Cons a col)
  then show ?case by (cases j) (auto simp: col_count_def)
qed

lemma unvisited_count_update:
  "i < length cs \<Longrightarrow>
   unvisited_count (cs[i := col]) + col_count (cs ! i) = unvisited_count cs + col_count col"
proof (induction cs arbitrary: i)
  case Nil
  then show ?case by simp
next
  case (Cons a cs)
  then show ?case by (cases i) (auto simp: unvisited_count_def col_count_def)
qed

lemma unvisited_count_update2:
  assumes "i < length cs" "j < length (cs ! i)"
  shows "unvisited_count (update2 cs i j f) + (if visited (cs ! i ! j) then 0 else 1)
     = unvisited_count cs + (if visited (f (cs ! i ! j)) then 0 else 1)"
  using unvisited_count_update[OF assms(1), of "(cs ! i)[j := f (cs ! i ! j)]"]
    col_count_update[OF assms(2), of "f (cs ! i ! j)"]
  by (simp add: update2_def)

lemma unvisited_count_cell_update_same:
  assumes "\<And>c. visited (f c) = visited c"
  shows "unvisited_count (cell_update cs x y f) = unvisited_count cs"
proof (cases "locate cs x y")
  case None
  then show ?thesis by (simp add: cell_update_def)
next
  case (Some a)
  obtain i j where a: "a = (i, j)" by (cases a)
  have lt: "i < length cs" "j < length (cs ! i)"
    using Some a locate_less by blast+
  show ?thesis
    using unvisited_count_update2[OF lt, of f] Some a assms by (simp add: cell_update_def)
qed

lemma unvisited_count_mark:
  assumes "cell_at cs x y = Inr c" "\<not> visited c"
  shows "unvisited_count (cell_update cs x y (\<lambda>c. c\<lparr>visited := True\<rparr>)) < unvisited_count cs"
proof -
  obtain i j where l: "locate cs x y = Some (i, j)" and c: "c = cs ! i ! j"
    using assms(1) by (auto simp: cell_at_def split: option.splits)
  have lt: "i < length cs" "j < length (cs ! i)"
    using l locate_less by blast+
  show ?thesis
    using unvisited_count_update2[OF lt, of "\<lambda>c. c\<lparr>visited := True\<rparr>"] l c assms(2)
    by (simp add: cell_update_def)
qed

lemma cell_at_cell_update:
  "cell_at (cell_update cs x' y' f) x y =
     (case locate cs x y of
        None \<Rightarrow> Inl IndexError
      | Some (i, j) \<Rightarrow> Inr (if locate cs x' y' = Some (i, j) then f (cs ! i ! j) else cs ! i ! j))"
proof (cases "locate cs x' y'")
  case None
  then show ?thesis by (simp add: cell_update_def cell_at_def split: option.splits)
next
  case (Some a)
  obtain i' j' where a: "a = (i', j')" by (cases a)
  have lt: "i' < length cs" "j' < length (cs ! i')"
    using Some a locate_less by blast+
  have cu: "cell_update cs x' y' f = update2 cs i' j' f"
    using Some a by (simp add: cell_update_def)
  show ?thesis
  proof (cases "locate cs x y")
    case None
    then show ?thesis by (simp add: cell_at_def cu)
  next
    case loc: (Some b)
    obtain i j where b: "b = (i, j)" by (cases b)
    have "cell_at (update2 cs i' j' f) x y = Inr (update2 cs i' j' f ! i ! j)"
      using loc b by (simp add: cell_at_def)
    also have "\<dots> = Inr (if (i', j') = (i, j) then f (cs ! i ! j) else cs ! i ! j)"
      by (auto simp: nth_update2[OF lt])
    finally show ?thesis using loc b Some a by (simp add: cu)
  qed
qed

lemma cell_at_cell_update_visited:
  "(\<And>c. visited (f c) = visited c) \<Longrightarrow> cell_at cs x y = Inr c \<Longrightarrow>
   \<exists>c'. cell_at (cell_update cs x' y' f) x y = Inr c' \<and> visited c' = visited c"
proof -
  assume f: "\<And>c. visited (f c) = visited c" and c: "cell_at cs x y = Inr c"
  obtain i j where l: "locate cs x y = Some (i, j)" and ci: "c = cs ! i ! j"
    using c by (auto simp: cell_at_def split: option.splits)
  show ?thesis
    by (simp add: cell_at_cell_update l ci f)
qed

lemma unvisited_of_mem:
  "unvisited_of cs ns = Inr r \<Longrightarrow> n \<in> set r \<Longrightarrow>
   n \<in> set ns \<and> (\<exists>c. cell_at cs (fst n) (snd n) = Inr c \<and> \<not> visited c)"
proof (induction ns arbitrary: r)
  case Nil
  then show ?case by simp
next
  case (Cons a ns)
  then show ?case by (auto split: sum.splits if_splits)
qed

lemma random_choice_mem: "xs \<noteq> [] \<Longrightarrow> fst (random_choice r xs) \<in> set xs"
  by (simp add: random_choice_def)

lemma carve_count:
  assumes "cell_at (cells m) (fst n) (snd n) = Inr c" "\<not> visited c"
  shows "unvisited_count (cells (carve m p n d)) < unvisited_count (cells m)"
proof -
  let ?cs1 = "cell_update (cells m) (fst p) (snd p) (remove_wall d)"
  let ?cs2 = "cell_update ?cs1 (fst n) (snd n) (remove_wall (opposite d))"
  have v: "\<And>d c. visited (remove_wall d c) = visited c" by (simp add: remove_wall_def)
  obtain c1 where c1: "cell_at ?cs1 (fst n) (snd n) = Inr c1" "visited c1 = visited c"
    using cell_at_cell_update_visited[of "remove_wall d", OF v assms(1)] by blast
  obtain c2 where c2: "cell_at ?cs2 (fst n) (snd n) = Inr c2" "visited c2 = visited c1"
    using cell_at_cell_update_visited[of "remove_wall (opposite d)", OF v c1(1)] by blast
  have "unvisited_count (cells (carve m p n d)) < unvisited_count ?cs2"
    using unvisited_count_mark[OF c2(1)] c2(2) c1(2) assms(2) by (simp add: carve_def)
  also have "\<dots> = unvisited_count (cells m)"
    by (simp add: unvisited_count_cell_update_same v)
  finally show ?thesis .
qed

lemma generate_step_measure:
  assumes "stack \<noteq> []" "generate_step m stack r = Inr s"
  shows "generate_measure s < generate_measure (m, stack, r)"
proof -
  obtain cur where cur: "cell_at (cells m) (fst (last stack)) (snd (last stack)) = Inr cur"
    using assms(2) by (auto simp: generate_step_def split: sum.splits)
  obtain ns where ns: "unvisited_of (cells m) (get_neighbors m (fst (last stack)) (snd (last stack))) = Inr ns"
    using assms(2) cur by (auto simp: generate_step_def split: sum.splits)
  show ?thesis
  proof (cases "ns = []")
    case True
    then have "s = (m, butlast stack, r)"
      using assms(2) cur ns by (simp add: generate_step_def)
    then show ?thesis using assms(1) by (simp add: generate_measure_def)
  next
    case False
    let ?n = "fst (random_choice r ns)"
    have "?n \<in> set ns" using False by (rule random_choice_mem)
    then obtain c where c: "cell_at (cells m) (fst ?n) (snd ?n) = Inr c" "\<not> visited c"
      using unvisited_of_mem[OF ns] by blast
    obtain d where s: "s = (carve m (last stack) ?n d, stack @ [?n], snd (random_choice r ns))"
      using assms(2) cur ns False c by (auto simp: generate_step_def split: sum.splits)
    show ?thesis using carve_count[OF c, of "last stack" d] by (simp add: s generate_measure_def)
  qed
qed

function generate_loop :: "Maze \<Rightarrow> pos list \<Rightarrow> rng \<Rightarrow> error + Maze \<times> rng" where
  "generate_loop m stack r =
     (if stack = [] then Inr (m, r)
      else (case generate_step m stack r of
              Inl e \<Rightarrow> Inl e
            | Inr s \<Rightarrow> generate_loop (fst s) (fst (snd s)) (snd (snd s))))"
  by pat_completeness auto
termination
proof (relation "measure generate_measure", goal_cases)
  case 1
  then show ?case by simp
next
  case (2 m stack r s)
  then show ?case using generate_step_measure[of stack m r s] by simp
qed

text \<open>
  \<open>Maze._generate_maze\<close>: the first cell is marked visited (\<open>cells[0][0]\<close> raises
  \<open>IndexError\<close> on a grid without cells), the loop carves, and the cells at \<open>start\<close>
  and \<open>end\<close> are marked.
\<close>

definition generate_maze :: "Maze \<Rightarrow> rng \<Rightarrow> error + Maze \<times> rng" where
  "generate_maze m r =
     (case cell_at (cells m) 0 0 of
        Inl e \<Rightarrow> Inl e
      | Inr c0 \<Rightarrow>
          (case generate_loop
                  (m\<lparr>cells := cell_update (cells m) 0 0 (\<lambda>c. c\<lparr>visited := True\<rparr>)\<rparr>)
                  [(0, 0)] r of
             Inl e \<Rightarrow> Inl e
           | Inr (m1, r1) \<Rightarrow>
               (case cell_at (cells m1) (fst (start m1)) (snd (start m1)) of
                  Inl e \<Rightarrow> Inl e
                | Inr cs \<Rightarrow>
                    (case cell_at
                            (cell_update (cells m1) (fst (start m1)) (snd (start m1))
                               (\<lambda>c. c\<lparr>is_start := True\<rparr>))
                            (fst (end_pos m1)) (snd (end_pos m1)) of
                       Inl e \<Rightarrow> Inl e
                     | Inr ce \<Rightarrow>
                         Inr (m1\<lparr>cells :=
                                  cell_update
                                    (cell_update (cells m1) (fst (start m1)) (snd (start m1))
                                       (\<lambda>c. c\<lparr>is_start := True\<rparr>))
                                    (fst (end_pos m1)) (snd (end_pos m1))
                                    (\<lambda>c. c\<lparr>is_end := True\<rparr>)\<rparr>,
                              r1)))))"

text \<open>
  \<open>Maze.__init__\<close>. \<open>range(n)\<close> is the list \<open>[0..n - 1]\<close>, empty for \<open>n \<le> 0\<close>.
  The result is the maze together with the state of the random generator after the
  construction, or the exception that the construction raises.
\<close>

definition Maze_init :: "int \<Rightarrow> int \<Rightarrow> int \<Rightarrow> rng \<Rightarrow> error + Maze \<times> rng" where
  "Maze_init w h cell_sz r =
     generate_maze
       \<lparr>width = w, height = h, cell_size = cell_sz,
        cells = map (\<lambda>x. map (\<lambda>y. Cell_init x y) [0..h - 1]) [0..w - 1],
        start = (0, 0), end_pos = (w - 1, h - 1)\<rparr> r"

section \<open>Well-formed grids\<close>

text \<open>
  A grid is well formed when it has \<open>width\<close> columns of \<open>height\<close> cells each, both
  positive. On such a grid the cell at a position within bounds is \<open>the_cell\<close>, and
  no lookup of such a position raises.
\<close>

definition wf_grid :: "Maze \<Rightarrow> bool" where
  "wf_grid m \<longleftrightarrow>
     0 < width m \<and> 0 < height m \<and> length (cells m) = nat (width m)
     \<and> list_all (\<lambda>col. length col = nat (height m)) (cells m)"

definition the_cell :: "Maze \<Rightarrow> pos \<Rightarrow> Cell" where
  "the_cell m p = cells m ! nat (fst p) ! nat (snd p)"

definition set_cell :: "Maze \<Rightarrow> pos \<Rightarrow> (Cell \<Rightarrow> Cell) \<Rightarrow> Maze" where
  "set_cell m p f = m\<lparr>cells := cell_update (cells m) (fst p) (snd p) f\<rparr>"

lemma wf_grid_col: "wf_grid m \<Longrightarrow> i < nat (width m) \<Longrightarrow> length (cells m ! i) = nat (height m)"
  by (simp add: wf_grid_def list_all_length)

lemma locate_in_bounds:
  assumes "wf_grid m" "in_bounds m p"
  shows "locate (cells m) (fst p) (snd p) = Some (nat (fst p), nat (snd p))"
proof -
  have x: "py_index (cells m) (fst p) = Some (nat (fst p))"
    using assms by (simp add: py_index_def wf_grid_def in_bounds_def)
  have "nat (fst p) < nat (width m)" using assms by (simp add: in_bounds_def)
  then have "length (cells m ! nat (fst p)) = nat (height m)"
    using assms(1) wf_grid_col by blast
  then have y: "py_index (cells m ! nat (fst p)) (snd p) = Some (nat (snd p))"
    using assms by (simp add: py_index_def in_bounds_def)
  show ?thesis by (simp add: locate_def x y)
qed

lemma cell_at_in_bounds:
  "wf_grid m \<Longrightarrow> in_bounds m p \<Longrightarrow> cell_at (cells m) (fst p) (snd p) = Inr (the_cell m p)"
  by (simp add: cell_at_def locate_in_bounds the_cell_def)

lemma set_cell_fields [simp]:
  "width (set_cell m p f) = width m" "height (set_cell m p f) = height m"
  "start (set_cell m p f) = start m" "end_pos (set_cell m p f) = end_pos m"
  "cell_size (set_cell m p f) = cell_size m"
  by (simp_all add: set_cell_def)

lemma in_bounds_set_cell [simp]: "in_bounds (set_cell m p f) q = in_bounds m q"
  by (simp add: in_bounds_def)

lemma grid_set_cell [simp]: "grid (set_cell m p f) = grid m"
  by (simp add: grid_def)

lemma wf_grid_set_cell [simp]: "wf_grid (set_cell m p f) = wf_grid m"
proof (cases "locate (cells m) (fst p) (snd p)")
  case None
  then show ?thesis by (simp add: set_cell_def cell_update_def)
next
  case (Some a)
  obtain i j where a: "a = (i, j)" by (cases a)
  have "cells (set_cell m p f) = update2 (cells m) i j f"
    using Some a by (simp add: set_cell_def cell_update_def)
  then show ?thesis
    by (simp add: wf_grid_def list_all_length)
qed

lemma the_cell_set_cell:
  assumes "wf_grid m" "in_bounds m p" "in_bounds m q"
  shows "the_cell (set_cell m p f) q = (if q = p then f (the_cell m p) else the_cell m q)"
proof -
  have lp: "locate (cells m) (fst p) (snd p) = Some (nat (fst p), nat (snd p))"
    using assms locate_in_bounds by blast
  have lt: "nat (fst p) < length (cells m)" "nat (snd p) < length (cells m ! nat (fst p))"
    using lp locate_less by blast+
  have "nat (fst q) = nat (fst p) \<and> nat (snd q) = nat (snd p) \<longleftrightarrow> q = p"
    using assms(2,3) by (auto simp: in_bounds_def prod_eq_iff)
  then show ?thesis
    by (simp add: the_cell_def set_cell_def cell_update_def lp nth_update2[OF lt])
qed

lemma carve_eq:
  "carve m p n d =
     set_cell (set_cell (set_cell m p (remove_wall d)) n (remove_wall (opposite d))) n
       (\<lambda>c. c\<lparr>visited := True\<rparr>)"
  by (simp add: carve_def set_cell_def)

section \<open>The solvers\<close>

text \<open>
  The \<open>for\<close> loop of \<open>solve_bfs\<close> and of \<open>solve_dfs\<close> (the two are the same text):
  every connected neighbour not yet in \<open>visited\<close> is added to it and appended to the
  frontier with the path extended by it.
\<close>

fun expand :: "pos list \<Rightarrow> pos list \<Rightarrow> pos set \<times> (pos \<times> pos list) list
    \<Rightarrow> pos set \<times> (pos \<times> pos list) list" where
  "expand path [] s = s"
| "expand path (n # ns) (seen, frontier) =
     (if n \<notin> seen then expand path ns (insert n seen, frontier @ [(n, path @ [n])])
      else expand path ns (seen, frontier))"

definition search_measure :: "Maze \<Rightarrow> pos set \<times> (pos \<times> pos list) list \<Rightarrow> nat" where
  "search_measure m s = 2 * card (grid m - fst s) + length (snd s)"

lemma grid_eq: "grid m = {0..<width m} \<times> {0..<height m}"
  by (auto simp: grid_def in_bounds_def)

lemma finite_grid: "finite (grid m)"
  by (simp add: grid_eq)

lemma connected_from_in_bounds:
  "connected_from m x y ds = Inr ns \<Longrightarrow> n \<in> set ns \<Longrightarrow> in_bounds m n"
proof (induction ds arbitrary: ns)
  case Nil
  then show ?case by simp
next
  case (Cons d ds)
  then show ?case
    by (auto simp: Let_def split: if_splits sum.splits)
qed

lemma get_connected_neighbors_grid:
  "get_connected_neighbors m x y = Inr ns \<Longrightarrow> set ns \<subseteq> grid m"
  using connected_from_in_bounds
  by (auto simp: get_connected_neighbors_def grid_def)

lemma expand_measure:
  "set ns \<subseteq> grid m \<Longrightarrow> search_measure m (expand path ns s) \<le> search_measure m s"
proof (induction ns arbitrary: s)
  case Nil
  then show ?case by simp
next
  case (Cons n ns)
  obtain seen frontier where s: "s = (seen, frontier)" by (cases s)
  show ?case
  proof (cases "n \<in> seen")
    case True
    with Cons s show ?thesis by simp
  next
    case False
    have "n \<in> grid m - seen" using Cons.prems False by simp
    then have "card (grid m - insert n seen) < card (grid m - seen)"
      by (metis Diff_insert card_Diff1_less finite_Diff finite_grid)
    then have "search_measure m (insert n seen, frontier @ [(n, path @ [n])])
        \<le> search_measure m (seen, frontier)"
      by (simp add: search_measure_def)
    moreover have "search_measure m (expand path ns (insert n seen, frontier @ [(n, path @ [n])]))
        \<le> search_measure m (insert n seen, frontier @ [(n, path @ [n])])"
      using Cons by simp
    ultimately show ?thesis using False s by simp
  qed
qed

text \<open>
  \<open>Maze.solve_bfs\<close>: the frontier is a queue, \<open>queue.pop(0)\<close> takes its first entry.
\<close>

function bfs_loop :: "Maze \<Rightarrow> (pos \<times> pos list) list \<Rightarrow> pos set \<Rightarrow> error + pos list" where
  "bfs_loop m queue seen =
     (case queue of
        [] \<Rightarrow> Inr []
      | (c, path) # rest \<Rightarrow>
          if c = end_pos m then Inr path
          else (case get_connected_neighbors m (fst c) (snd c) of
                  Inl e \<Rightarrow> Inl e
                | Inr ns \<Rightarrow>
                    bfs_loop m (snd (expand path ns (seen, rest)))
                      (fst (expand path ns (seen, rest)))))"
  by pat_completeness auto
termination
proof (relation "measure (\<lambda>(m, queue, seen). search_measure m (seen, queue))", goal_cases)
  case 1
  then show ?case by simp
next
  case (2 m queue seen p rest c path ns)
  have "search_measure m (expand path ns (seen, rest)) \<le> search_measure m (seen, rest)"
    using 2 get_connected_neighbors_grid expand_measure by blast
  moreover have "search_measure m (seen, rest) < search_measure m (seen, queue)"
    using 2 by (simp add: search_measure_def)
  ultimately show ?case by (simp add: search_measure_def)
qed

definition solve_bfs :: "Maze \<Rightarrow> error + pos list" where
  "solve_bfs m = bfs_loop m [(start m, [start m])] {start m}"

text \<open>
  \<open>Maze.solve_dfs\<close>: the frontier is a stack whose top is the end of the list,
  \<open>stack.pop()\<close> takes its last entry.
\<close>

function dfs_loop :: "Maze \<Rightarrow> (pos \<times> pos list) list \<Rightarrow> pos set \<Rightarrow> error + pos list" where
  "dfs_loop m stack seen =
     (if stack = [] then Inr []
      else if fst (last stack) = end_pos m then Inr (snd (last stack))
      else (case get_connected_neighbors m (fst (fst (last stack))) (snd (fst (last stack))) of
              Inl e \<Rightarrow> Inl e
            | Inr ns \<Rightarrow>
                dfs_loop m (snd (expand (snd (last stack)) ns (seen, butlast stack)))
                  (fst (expand (snd (last stack)) ns (seen, butlast stack)))))"
  by pat_completeness auto
termination
proof (relation "measure (\<lambda>(m, stack, seen). search_measure m (seen, stack))", goal_cases)
  case 1
  then show ?case by simp
next
  case (2 m stack seen ns)
  have "search_measure m (expand (snd (last stack)) ns (seen, butlast stack))
      \<le> search_measure m (seen, butlast stack)"
    using 2 get_connected_neighbors_grid expand_measure by blast
  moreover have "search_measure m (seen, butlast stack) < search_measure m (seen, stack)"
    using 2 by (simp add: search_measure_def)
  ultimately show ?case by (simp add: search_measure_def)
qed

definition solve_dfs :: "Maze \<Rightarrow> error + pos list" where
  "solve_dfs m = dfs_loop m [(start m, [start m])] {start m}"

text \<open>
  \<open>Maze.solve_astar\<close>. The frontier \<open>open_set\<close> is a priority queue of the library
  \<open>heapq\<close>, holding pairs \<open>(f, (x, y))\<close>: \<open>heappop\<close> removes and returns a least item
  in the order of Python tuples (first \<open>f\<close>, then \<open>x\<close>, then \<open>y\<close>). The queue is kept
  as the list of its items; the least item is found by a scan.
\<close>

type_synonym item = "int \<times> pos"

fun item_le :: "item \<Rightarrow> item \<Rightarrow> bool" where
  "item_le (f1, (x1, y1)) (f2, (x2, y2)) =
     (f1 < f2 \<or> (f1 = f2 \<and> (x1 < x2 \<or> (x1 = x2 \<and> y1 \<le> y2))))"

fun least_item :: "item \<Rightarrow> item list \<Rightarrow> item" where
  "least_item a [] = a"
| "least_item a (b # bs) = least_item (if item_le a b then a else b) bs"

definition heappush :: "item list \<Rightarrow> item \<Rightarrow> item list" where
  "heappush h a = h @ [a]"

definition heappop :: "item list \<Rightarrow> item \<times> item list" where
  "heappop h = (least_item (hd h) (tl h), remove1 (least_item (hd h) (tl h)) h)"

definition heuristic :: "pos \<Rightarrow> pos \<Rightarrow> int" where
  "heuristic a b = \<bar>fst a - fst b\<bar> + \<bar>snd a - snd b\<bar>"

text \<open>
  The \<open>for\<close> loop of \<open>solve_astar\<close>. \<open>g_score[current]\<close> raises \<open>KeyError\<close> when the
  key is absent. The dictionary \<open>f_score\<close> is written and read back at once, for the
  priority of the item pushed; it is the value \<open>tentative + heuristic neighbor end\<close>.
\<close>

type_synonym astar_state = "item list \<times> (pos \<rightharpoonup> pos) \<times> (pos \<rightharpoonup> int)"

fun relax :: "Maze \<Rightarrow> pos \<Rightarrow> pos list \<Rightarrow> astar_state \<Rightarrow> error + astar_state" where
  "relax m current [] s = Inr s"
| "relax m current (neighbor # ns) (open_set, came_from, g_score) =
     (case g_score current of
        None \<Rightarrow> Inl KeyError
      | Some g \<Rightarrow>
          if (case g_score neighbor of None \<Rightarrow> True | Some gn \<Rightarrow> g + 1 < gn) then
            relax m current ns
              (heappush open_set (g + 1 + heuristic neighbor (end_pos m), neighbor),
               came_from(neighbor \<mapsto> current),
               g_score(neighbor \<mapsto> g + 1))
          else relax m current ns (open_set, came_from, g_score))"

text \<open>
  The inner \<open>while current in came_from\<close> loop, which collects the path backwards. It
  does not return when \<open>came_from\<close> has a cycle, so its result is an option, \<open>None\<close>
  for a run that never ends.
\<close>

partial_function (option) reconstruct :: "(pos \<rightharpoonup> pos) \<Rightarrow> pos \<Rightarrow> pos list \<Rightarrow> pos list option" where
  "reconstruct came_from current path =
     (case came_from current of
        None \<Rightarrow> Some path
      | Some p \<Rightarrow> reconstruct came_from p (path @ [current]))"

partial_function (option) astar_loop :: "Maze \<Rightarrow> item list \<Rightarrow> (pos \<rightharpoonup> pos) \<Rightarrow> (pos \<rightharpoonup> int)
    \<Rightarrow> (error + pos list) option" where
  "astar_loop m open_set came_from g_score =
     (if open_set = [] then Some (Inr [])
      else if snd (fst (heappop open_set)) = end_pos m then
        (case reconstruct came_from (snd (fst (heappop open_set))) [] of
           None \<Rightarrow> None
         | Some path \<Rightarrow> Some (Inr (rev (path @ [start m]))))
      else
        (case get_connected_neighbors m (fst (snd (fst (heappop open_set))))
                (snd (snd (fst (heappop open_set)))) of
           Inl e \<Rightarrow> Some (Inl e)
         | Inr ns \<Rightarrow>
             (case relax m (snd (fst (heappop open_set))) ns
                     (snd (heappop open_set), came_from, g_score) of
                Inl e \<Rightarrow> Some (Inl e)
              | Inr s \<Rightarrow> astar_loop m (fst s) (fst (snd s)) (snd (snd s)))))"

declare reconstruct.simps [code]

declare astar_loop.simps [code]

definition solve_astar :: "Maze \<Rightarrow> (error + pos list) option" where
  "solve_astar m =
     astar_loop m (heappush [] (0, start m)) Map.empty [start m \<mapsto> 0]"

section \<open>The connectivity graph\<close>

text \<open>
  The connectivity graph of a maze has the cells within bounds as vertices; there is an
  edge from \<open>p\<close> to a grid-adjacent cell \<open>q\<close> when the cell at \<open>p\<close> has no wall in the
  direction of \<open>q\<close>. \<open>edges\<close> is the set of the edges without their orientation, and
  a cycle is a list of at least three distinct cells, each joined to the next and the
  last to the first.
\<close>

definition step_to :: "pos \<Rightarrow> Direction \<Rightarrow> pos" where
  "step_to p d = (fst p + fst (Direction_value d), snd p + snd (Direction_value d))"

definition passage :: "Maze \<Rightarrow> pos \<Rightarrow> pos \<Rightarrow> bool" where
  "passage m p q \<longleftrightarrow>
     in_bounds m p \<and> in_bounds m q
     \<and> (\<exists>d \<in> set Direction_members. q = step_to p d \<and> \<not> has_wall (the_cell m p) d)"

lemma Direction_members_all [simp]: "d \<in> set Direction_members"
  by (cases d) (simp_all add: Direction_members_def)

lemma step_to_neq [simp]: "step_to p d \<noteq> p"
  by (cases d; cases p) (simp_all add: step_to_def)

lemma step_to_opposite [simp]: "step_to (step_to p d) (opposite d) = p"
  by (cases d; cases p) (simp_all add: step_to_def)

lemma opposite_opposite [simp]: "opposite (opposite d) = d"
  by (cases d) simp_all

lemma step_to_inj: "step_to p d = step_to p d' \<Longrightarrow> d = d'"
  by (cases d; cases d'; cases p) (simp_all add: step_to_def)

lemma step_to_inj_pos: "step_to p d = step_to q d \<Longrightarrow> p = q"
  by (cases d; cases p; cases q) (simp_all add: step_to_def)

lemma step_back: "q = step_to p d \<longleftrightarrow> p = step_to q (opposite d)"
  by (cases d; cases p; cases q) (auto simp: step_to_def)

lemma Direction_of_value_step:
  "Direction_of_value (fst (step_to p d) - fst p, snd (step_to p d) - snd p) = Inr d"
  by (cases d) (simp_all add: step_to_def Direction_of_value_def)

lemma get_neighbors_iff:
  "q \<in> set (get_neighbors m x y) \<longleftrightarrow> in_bounds m q \<and> (\<exists>d. q = step_to (x, y) d)"
proof -
  have "(\<exists>d. q = step_to (x, y) d) \<longleftrightarrow> q \<in> {(x, y + 1), (x + 1, y), (x, y - 1), (x - 1, y)}"
  proof
    assume "\<exists>d. q = step_to (x, y) d"
    then obtain d where "q = step_to (x, y) d" ..
    then show "q \<in> {(x, y + 1), (x + 1, y), (x, y - 1), (x - 1, y)}"
      by (cases d) (simp_all add: step_to_def)
  next
    assume "q \<in> {(x, y + 1), (x + 1, y), (x, y - 1), (x - 1, y)}"
    then consider "q = step_to (x, y) SOUTH" | "q = step_to (x, y) EAST"
      | "q = step_to (x, y) NORTH" | "q = step_to (x, y) WEST"
      by (auto simp: step_to_def)
    then show "\<exists>d. q = step_to (x, y) d" by cases blast+
  qed
  then show ?thesis by (auto simp: get_neighbors_def)
qed

lemma has_wall_remove_wall [simp]:
  "has_wall (remove_wall d c) d' \<longleftrightarrow> d' \<noteq> d \<and> has_wall c d'"
  by (simp add: has_wall_def remove_wall_def)

lemma remove_wall_fields [simp]:
  "visited (remove_wall d c) = visited c" "is_start (remove_wall d c) = is_start c"
  "is_end (remove_wall d c) = is_end c"
  by (simp_all add: remove_wall_def)

lemma has_wall_visited_update [simp]: "has_wall (c\<lparr>visited := b\<rparr>) d = has_wall c d"
  by (simp add: has_wall_def)

lemma carve_fields [simp]:
  "width (carve m p n d) = width m" "height (carve m p n d) = height m"
  "start (carve m p n d) = start m" "end_pos (carve m p n d) = end_pos m"
  by (simp_all add: carve_def)

lemma in_bounds_carve [simp]: "in_bounds (carve m p n d) q = in_bounds m q"
  by (simp add: in_bounds_def)

lemma grid_carve [simp]: "grid (carve m p n d) = grid m"
  by (simp add: grid_def)

lemma wf_grid_carve [simp]: "wf_grid (carve m p n d) = wf_grid m"
  by (simp add: carve_eq)

lemma the_cell_carve:
  assumes "wf_grid m" "in_bounds m p" "in_bounds m n" "n \<noteq> p" "in_bounds m q"
  shows "the_cell (carve m p n d) q =
     (if q = n then (remove_wall (opposite d) (the_cell m n))\<lparr>visited := True\<rparr>
      else if q = p then remove_wall d (the_cell m p)
      else the_cell m q)"
  using assms by (simp add: carve_eq the_cell_set_cell)

lemma has_wall_carve:
  assumes "wf_grid m" "in_bounds m p" "in_bounds m n" "n \<noteq> p" "in_bounds m q"
  shows "has_wall (the_cell (carve m p n d) q) d' \<longleftrightarrow>
     has_wall (the_cell m q) d' \<and> \<not> (q = p \<and> d' = d) \<and> \<not> (q = n \<and> d' = opposite d)"
  using assms by (auto simp: the_cell_carve)

lemma visited_carve:
  assumes "wf_grid m" "in_bounds m p" "in_bounds m n" "n \<noteq> p" "in_bounds m q"
  shows "visited (the_cell (carve m p n d) q) \<longleftrightarrow> visited (the_cell m q) \<or> q = n"
  using assms by (auto simp: the_cell_carve)

lemma flags_carve:
  assumes "wf_grid m" "in_bounds m p" "in_bounds m n" "n \<noteq> p" "in_bounds m q"
  shows "is_start (the_cell (carve m p n d) q) = is_start (the_cell m q)"
    "is_end (the_cell (carve m p n d) q) = is_end (the_cell m q)"
  using assms by (auto simp: the_cell_carve)

lemma passage_carve:
  assumes "wf_grid m" "in_bounds m p" "in_bounds m n" "n = step_to p d"
  shows "passage (carve m p n d) a b \<longleftrightarrow>
     passage m a b \<or> (a = p \<and> b = n) \<or> (a = n \<and> b = p)"
proof -
  have np: "n \<noteq> p" using assms(4) by simp
  have pn: "p = step_to n (opposite d)" using assms(4) by simp
  show ?thesis
  proof (cases "in_bounds m a \<and> in_bounds m b")
    case False
    then show ?thesis using assms(2,3) by (auto simp: passage_def)
  next
    case True
    then have hw: "\<And>d'. has_wall (the_cell (carve m p n d) a) d' \<longleftrightarrow>
       has_wall (the_cell m a) d' \<and> \<not> (a = p \<and> d' = d) \<and> \<not> (a = n \<and> d' = opposite d)"
      using has_wall_carve[OF assms(1-3) np] by blast
    show ?thesis
    proof
      assume "passage (carve m p n d) a b"
      then obtain d' where d': "b = step_to a d'"
        "\<not> has_wall (the_cell (carve m p n d) a) d'"
        by (auto simp: passage_def)
      then consider "\<not> has_wall (the_cell m a) d'" | "a = p" "d' = d" | "a = n" "d' = opposite d"
        using hw by blast
      then show "passage m a b \<or> (a = p \<and> b = n) \<or> (a = n \<and> b = p)"
      proof cases
        case 1
        then show ?thesis using True d'(1) by (auto simp: passage_def)
      next
        case 2
        then show ?thesis using d'(1) assms(4) by simp
      next
        case 3
        then show ?thesis using d'(1) pn by simp
      qed
    next
      assume "passage m a b \<or> (a = p \<and> b = n) \<or> (a = n \<and> b = p)"
      then consider "passage m a b" | "a = p" "b = n" | "a = n" "b = p" by blast
      then show "passage (carve m p n d) a b"
      proof cases
        case 1
        then show ?thesis using hw by (auto simp: passage_def)
      next
        case 2
        then show ?thesis using hw True assms(4) by (auto simp: passage_def)
      next
        case 3
        then show ?thesis using hw True pn by (auto simp: passage_def)
      qed
    qed
  qed
qed

lemma unvisited_of_wf:
  "wf_grid m \<Longrightarrow> \<forall>q \<in> set ns. in_bounds m q \<Longrightarrow>
   unvisited_of (cells m) ns = Inr (filter (\<lambda>q. \<not> visited (the_cell m q)) ns)"
  by (induction ns) (simp_all add: cell_at_in_bounds)

lemma generate_step_cases:
  assumes wf: "wf_grid m" and ne: "stack \<noteq> []" and top: "in_bounds m (last stack)"
  shows "(generate_step m stack r = Inr (m, butlast stack, r)
          \<and> (\<forall>d. in_bounds m (step_to (last stack) d)
                \<longrightarrow> visited (the_cell m (step_to (last stack) d))))
       \<or> (\<exists>d r'. generate_step m stack r
              = Inr (carve m (last stack) (step_to (last stack) d) d,
                     stack @ [step_to (last stack) d], r')
            \<and> in_bounds m (step_to (last stack) d)
            \<and> \<not> visited (the_cell m (step_to (last stack) d)))"
proof -
  let ?t = "last stack"
  let ?ns = "get_neighbors m (fst ?t) (snd ?t)"
  let ?U = "filter (\<lambda>q. \<not> visited (the_cell m q)) ?ns"
  have nb: "\<forall>q \<in> set ?ns. in_bounds m q" by (simp add: get_neighbors_iff)
  have cur: "cell_at (cells m) (fst ?t) (snd ?t) = Inr (the_cell m ?t)"
    using wf top by (rule cell_at_in_bounds)
  have U: "unvisited_of (cells m) ?ns = Inr ?U"
    using wf nb by (rule unvisited_of_wf)
  show ?thesis
  proof (cases "?U = []")
    case True
    have "\<forall>d. in_bounds m (step_to ?t d) \<longrightarrow> visited (the_cell m (step_to ?t d))"
    proof (intro allI impI)
      fix d assume "in_bounds m (step_to ?t d)"
      then have "step_to ?t d \<in> set ?ns"
        using get_neighbors_iff[of "step_to ?t d" m "fst ?t" "snd ?t"] by auto
      then show "visited (the_cell m (step_to ?t d))"
        using True by (auto simp: filter_empty_conv)
    qed
    moreover have "generate_step m stack r = Inr (m, butlast stack, r)"
      using True by (simp add: generate_step_def cur U)
    ultimately show ?thesis by blast
  next
    case False
    let ?n = "fst (random_choice r ?U)"
    have "?n \<in> set ?U" using False by (rule random_choice_mem)
    then have n: "?n \<in> set ?ns" "\<not> visited (the_cell m ?n)" by auto
    then obtain d where d: "?n = step_to ?t d" and nin: "in_bounds m ?n"
      using get_neighbors_iff[of ?n m "fst ?t" "snd ?t"] by auto
    have dv: "Direction_of_value (fst ?n - fst ?t, snd ?n - snd ?t) = Inr d"
      unfolding d by (rule Direction_of_value_step)
    have nc: "cell_at (cells m) (fst ?n) (snd ?n) = Inr (the_cell m ?n)"
      using wf nin by (rule cell_at_in_bounds)
    have "generate_step m stack r
        = Inr (carve m ?t ?n d, stack @ [?n], snd (random_choice r ?U))"
      using False by (simp add: generate_step_def cur U nc dv)
    then show ?thesis using d nin n(2) by metis
  qed
qed

section \<open>Correctness of the generator\<close>

text \<open>
  The invariant of the \<open>while stack\<close> loop: the cells of the stack are visited; the
  walls are symmetric; passages join visited cells only; every visited cell is reached
  from \<open>(0, 0)\<close>; there is one edge less than there are visited cells; there is no
  cycle; a visited cell that has left the stack has no unvisited neighbour; and no
  cell is marked as start or end yet.
\<close>

definition visited_cells :: "Maze \<Rightarrow> pos set" where
  "visited_cells m = {p. in_bounds m p \<and> visited (the_cell m p)}"

definition edges :: "Maze \<Rightarrow> pos set set" where
  "edges m = {{p, q} | p q. passage m p q}"

definition cycle :: "Maze \<Rightarrow> pos list \<Rightarrow> bool" where
  "cycle m c \<longleftrightarrow>
     3 \<le> length c \<and> distinct c
     \<and> (\<forall>i < length c. passage m (c ! i) (c ! (Suc i mod length c)))"

definition wall_symmetric :: "Maze \<Rightarrow> bool" where
  "wall_symmetric m \<longleftrightarrow>
     (\<forall>p d. in_bounds m p \<and> in_bounds m (step_to p d) \<longrightarrow>
        has_wall (the_cell m p) d = has_wall (the_cell m (step_to p d)) (opposite d))"

definition gen_inv :: "Maze \<Rightarrow> pos list \<Rightarrow> bool" where
  "gen_inv m stack \<longleftrightarrow>
     wf_grid m
     \<and> set stack \<subseteq> visited_cells m
     \<and> (0, 0) \<in> visited_cells m
     \<and> wall_symmetric m
     \<and> (\<forall>a b. passage m a b \<longrightarrow> a \<in> visited_cells m \<and> b \<in> visited_cells m)
     \<and> (\<forall>v \<in> visited_cells m. (passage m)\<^sup>*\<^sup>* (0, 0) v)
     \<and> card (edges m) + 1 = card (visited_cells m)
     \<and> (\<forall>c. \<not> cycle m c)
     \<and> (\<forall>v \<in> visited_cells m. v \<in> set stack
            \<or> (\<forall>d. in_bounds m (step_to v d) \<longrightarrow> step_to v d \<in> visited_cells m))
     \<and> (\<forall>p. in_bounds m p \<longrightarrow> \<not> is_start (the_cell m p) \<and> \<not> is_end (the_cell m p))"

lemma visited_cells_grid: "visited_cells m \<subseteq> grid m"
  by (auto simp: visited_cells_def grid_def)

lemma finite_visited_cells: "finite (visited_cells m)"
  using visited_cells_grid finite_grid by (rule finite_subset)

lemma finite_edges: "finite (edges m)"
proof -
  have "edges m \<subseteq> (\<lambda>(p, q). {p, q}) ` (grid m \<times> grid m)"
    by (auto simp: edges_def passage_def grid_def)
  then show ?thesis
    using finite_grid by (meson finite_SigmaI finite_imageI finite_subset)
qed

lemma visited_cells_carve:
  assumes "wf_grid m" "in_bounds m p" "in_bounds m n" "n \<noteq> p"
  shows "visited_cells (carve m p n d) = insert n (visited_cells m)"
  using assms visited_carve[OF assms] by (auto simp: visited_cells_def)

lemma edges_carve:
  assumes "wf_grid m" "in_bounds m p" "in_bounds m n" "n = step_to p d"
  shows "edges (carve m p n d) = insert {p, n} (edges m)"
proof -
  have pc: "\<And>a b. passage (carve m p n d) a b \<longleftrightarrow>
     passage m a b \<or> (a = p \<and> b = n) \<or> (a = n \<and> b = p)"
    using passage_carve[OF assms] by blast
  show ?thesis
  proof (intro set_eqI iffI)
    fix x assume "x \<in> edges (carve m p n d)"
    then obtain a b where x: "x = {a, b}" and ab: "passage (carve m p n d) a b"
      by (auto simp: edges_def)
    from ab pc consider "passage m a b" | "a = p" "b = n" | "a = n" "b = p" by blast
    then show "x \<in> insert {p, n} (edges m)"
    proof cases
      case 1
      then have "x \<in> edges m" unfolding edges_def using x by blast
      then show ?thesis by simp
    next
      case 2
      then show ?thesis using x by simp
    next
      case 3
      then show ?thesis using x by (simp add: insert_commute)
    qed
  next
    fix x assume "x \<in> insert {p, n} (edges m)"
    then consider "x = {p, n}" | "x \<in> edges m" by blast
    then show "x \<in> edges (carve m p n d)"
    proof cases
      case 1
      have "passage (carve m p n d) p n" using pc by blast
      then show ?thesis unfolding 1 edges_def by blast
    next
      case 2
      then obtain a b where "x = {a, b}" "passage m a b" by (auto simp: edges_def)
      then show ?thesis using pc unfolding edges_def by blast
    qed
  qed
qed

lemma wall_symmetric_carve:
  assumes wf: "wf_grid m" and p: "in_bounds m p" and n: "in_bounds m n"
    and s: "n = step_to p d" and sym: "wall_symmetric m"
  shows "wall_symmetric (carve m p n d)"
  unfolding wall_symmetric_def
proof (intro allI impI)
  fix a d'
  assume "in_bounds (carve m p n d) a \<and> in_bounds (carve m p n d) (step_to a d')"
  then have a: "in_bounds m a" and b: "in_bounds m (step_to a d')" by simp_all
  have np: "n \<noteq> p" using s by simp
  have old: "has_wall (the_cell m a) d' = has_wall (the_cell m (step_to a d')) (opposite d')"
    using sym a b unfolding wall_symmetric_def by blast
  have e1: "(a = p \<and> d' = d) \<longleftrightarrow> (step_to a d' = n \<and> opposite d' = opposite d)"
    using s by (cases d; cases d'; cases a; cases p) (auto simp: step_to_def)
  have e2: "(a = n \<and> d' = opposite d) \<longleftrightarrow> (step_to a d' = p \<and> opposite d' = d)"
    using s by (cases d; cases d'; cases a; cases p) (auto simp: step_to_def)
  show "has_wall (the_cell (carve m p n d) a) d'
      = has_wall (the_cell (carve m p n d) (step_to a d')) (opposite d')"
    unfolding has_wall_carve[OF wf p n np a] has_wall_carve[OF wf p n np b]
    using old e1 e2 by blast
qed

lemma pred_succ_neq:
  assumes "3 \<le> L" "i < L"
  shows "(i + L - 1) mod L \<noteq> Suc i mod L" "Suc ((i + L - 1) mod L) mod L = i"
proof -
  consider "i = 0" | "0 < i" "Suc i < L" | "0 < i" "Suc i = L"
    using assms(2) by linarith
  then have "(i + L - 1) mod L \<noteq> Suc i mod L \<and> Suc ((i + L - 1) mod L) mod L = i"
  proof cases
    case 1
    then show ?thesis using assms by simp
  next
    case 2
    have e: "i + L - 1 = (i - 1) + L" using 2 by simp
    have "(i - 1 + L) mod L = (i - 1) mod L" by (rule mod_add_self2)
    also have "\<dots> = i - 1" using 2 by (intro mod_less) linarith
    finally have "(i - 1 + L) mod L = i - 1" .
    then have "(i + L - 1) mod L = i - 1" by (simp only: e)
    then show ?thesis using 2 by simp
  next
    case 3
    have e: "i + L - 1 = (i - 1) + L" using 3 by simp
    have "(i - 1 + L) mod L = (i - 1) mod L" by (rule mod_add_self2)
    also have "\<dots> = i - 1" using 3 by (intro mod_less) linarith
    finally have "(i - 1 + L) mod L = i - 1" .
    then have "(i + L - 1) mod L = i - 1" by (simp only: e)
    then show ?thesis using 3 assms by simp
  qed
  then show "(i + L - 1) mod L \<noteq> Suc i mod L" "Suc ((i + L - 1) mod L) mod L = i"
    by simp_all
qed

lemma no_cycle_carve:
  assumes wf: "wf_grid m" and p: "in_bounds m p" and n: "in_bounds m n"
    and s: "n = step_to p d"
    and iso: "\<forall>a b. passage m a b \<longrightarrow> a \<noteq> n \<and> b \<noteq> n"
    and old: "\<forall>c. \<not> cycle m c"
  shows "\<not> cycle (carve m p n d) c"
proof
  assume cyc: "cycle (carve m p n d) c"
  let ?L = "length c"
  have L: "3 \<le> ?L" and dist: "distinct c"
    and ed: "\<And>i. i < ?L \<Longrightarrow> passage (carve m p n d) (c ! i) (c ! (Suc i mod ?L))"
    using cyc by (simp_all add: cycle_def)
  have pc: "\<And>a b. passage (carve m p n d) a b \<longleftrightarrow>
     passage m a b \<or> (a = p \<and> b = n) \<or> (a = n \<and> b = p)"
    using passage_carve[OF wf p n s] by blast
  have np: "n \<noteq> p" using s by simp
  show False
  proof (cases "n \<in> set c")
    case False
    have "\<And>i. i < ?L \<Longrightarrow> passage m (c ! i) (c ! (Suc i mod ?L))"
    proof -
      fix i assume i: "i < ?L"
      have "c ! i \<in> set c" using i by simp
      moreover have "Suc i mod ?L < ?L" by (rule mod_less_divisor) (use L in linarith)
      then have "c ! (Suc i mod ?L) \<in> set c" by (rule nth_mem)
      ultimately have "c ! i \<noteq> n" "c ! (Suc i mod ?L) \<noteq> n" using False by auto
      then show "passage m (c ! i) (c ! (Suc i mod ?L))"
        using ed[OF i] pc by blast
    qed
    then have "cycle m c" using L dist by (simp add: cycle_def)
    then show False using old by blast
  next
    case True
    then obtain i where i: "i < ?L" "c ! i = n" by (auto simp: in_set_conv_nth)
    let ?j = "(i + ?L - 1) mod ?L"
    let ?k = "Suc i mod ?L"
    have L0: "0 < ?L" using L by linarith
    have j: "?j < ?L" and k: "?k < ?L" by (rule mod_less_divisor[OF L0])+
    have jk: "?j \<noteq> ?k" and sj: "Suc ?j mod ?L = i"
      using pred_succ_neq[OF L i(1)] by simp_all
    have "passage (carve m p n d) (c ! ?j) n"
      using ed[OF j] sj i(2) by simp
    then have cj: "c ! ?j = p" using pc iso np by blast
    have "passage (carve m p n d) n (c ! ?k)"
      using ed[OF i(1)] i(2) by simp
    then have ck: "c ! ?k = p" using pc iso np by blast
    have "c ! ?j = c ! ?k" using cj ck by simp
    then have "?j = ?k" using nth_eq_iff_index_eq[OF dist j k] by blast
    then show False using jk by simp
  qed
qed

lemma gen_inv_carve:
  assumes inv: "gen_inv m stack" and ne: "stack \<noteq> []"
    and nb: "in_bounds m (step_to (last stack) d)"
    and nv: "\<not> visited (the_cell m (step_to (last stack) d))"
  shows "gen_inv (carve m (last stack) (step_to (last stack) d) d)
           (stack @ [step_to (last stack) d])"
proof -
  let ?p = "last stack"
  let ?n = "step_to ?p d"
  let ?m = "carve m ?p ?n d"
  have wf: "wf_grid m" and st: "set stack \<subseteq> visited_cells m"
    and root: "(0, 0) \<in> visited_cells m" and sym: "wall_symmetric m"
    and pv: "\<forall>a b. passage m a b \<longrightarrow> a \<in> visited_cells m \<and> b \<in> visited_cells m"
    and reach: "\<forall>v \<in> visited_cells m. (passage m)\<^sup>*\<^sup>* (0, 0) v"
    and cardE: "card (edges m) + 1 = card (visited_cells m)"
    and acyc: "\<forall>c. \<not> cycle m c"
    and closed: "\<forall>v \<in> visited_cells m. v \<in> set stack
            \<or> (\<forall>d. in_bounds m (step_to v d) \<longrightarrow> step_to v d \<in> visited_cells m)"
    and flags: "\<forall>p. in_bounds m p \<longrightarrow> \<not> is_start (the_cell m p) \<and> \<not> is_end (the_cell m p)"
    using inv by (simp_all add: gen_inv_def)
  have pV: "?p \<in> visited_cells m" using st ne by auto
  then have pb: "in_bounds m ?p" by (simp add: visited_cells_def)
  have np: "?n \<noteq> ?p" by simp
  have nV: "?n \<notin> visited_cells m" using nv by (simp add: visited_cells_def)
  have V: "visited_cells ?m = insert ?n (visited_cells m)"
    using visited_cells_carve[OF wf pb nb np] .
  have E: "edges ?m = insert {?p, ?n} (edges m)"
    using edges_carve[OF wf pb nb refl] .
  have pc: "\<And>a b. passage ?m a b \<longleftrightarrow>
     passage m a b \<or> (a = ?p \<and> b = ?n) \<or> (a = ?n \<and> b = ?p)"
    using passage_carve[OF wf pb nb refl] by blast
  have iso: "\<forall>a b. passage m a b \<longrightarrow> a \<noteq> ?n \<and> b \<noteq> ?n"
    using pv nV by blast
  have 1: "wf_grid ?m" using wf by simp
  have 2: "set (stack @ [?n]) \<subseteq> visited_cells ?m" using st V by auto
  have 3: "(0, 0) \<in> visited_cells ?m" using root V by simp
  have 4: "wall_symmetric ?m" using wall_symmetric_carve[OF wf pb nb refl sym] .
  have 5: "\<forall>a b. passage ?m a b \<longrightarrow> a \<in> visited_cells ?m \<and> b \<in> visited_cells ?m"
    using pc pv pV V by auto
  have mono: "\<And>v. (passage m)\<^sup>*\<^sup>* (0, 0) v \<Longrightarrow> (passage ?m)\<^sup>*\<^sup>* (0, 0) v"
  proof -
    fix v assume "(passage m)\<^sup>*\<^sup>* (0, 0) v"
    then show "(passage ?m)\<^sup>*\<^sup>* (0, 0) v"
      by (rule rtranclp_mono[THEN predicate2D, rotated]) (use pc in blast)
  qed
  have 6: "\<forall>v \<in> visited_cells ?m. (passage ?m)\<^sup>*\<^sup>* (0, 0) v"
  proof
    fix v assume "v \<in> visited_cells ?m"
    then consider "v = ?n" | "v \<in> visited_cells m" using V by blast
    then show "(passage ?m)\<^sup>*\<^sup>* (0, 0) v"
    proof cases
      case 1
      have "(passage ?m)\<^sup>*\<^sup>* (0, 0) ?p" using reach pV mono by blast
      moreover have "passage ?m ?p ?n" using pc by blast
      ultimately show ?thesis unfolding 1 by (rule rtranclp.rtrancl_into_rtrancl)
    next
      case 2
      then show ?thesis using reach mono by blast
    qed
  qed
  have "{?p, ?n} \<notin> edges m"
  proof
    assume "{?p, ?n} \<in> edges m"
    then obtain a b where ab: "{?p, ?n} = {a, b}" "passage m a b"
      unfolding edges_def by blast
    have "a \<noteq> ?n \<and> b \<noteq> ?n" using iso ab(2) by blast
    moreover have "?n \<in> {a, b}" using ab(1) by blast
    ultimately show False by blast
  qed
  then have "card (edges ?m) = card (edges m) + 1"
    using E finite_edges by simp
  moreover have "card (visited_cells ?m) = card (visited_cells m) + 1"
    using V nV finite_visited_cells by simp
  ultimately have 7: "card (edges ?m) + 1 = card (visited_cells ?m)"
    using cardE by simp
  have 8: "\<forall>c. \<not> cycle ?m c"
    using no_cycle_carve[OF wf pb nb refl iso acyc] by blast
  have 9: "\<forall>v \<in> visited_cells ?m. v \<in> set (stack @ [?n])
            \<or> (\<forall>d. in_bounds ?m (step_to v d) \<longrightarrow> step_to v d \<in> visited_cells ?m)"
    using closed V by auto
  have 10: "\<forall>q. in_bounds ?m q \<longrightarrow> \<not> is_start (the_cell ?m q) \<and> \<not> is_end (the_cell ?m q)"
    using flags flags_carve[OF wf pb nb np] by simp
  show ?thesis
    unfolding gen_inv_def using 1 2 3 4 5 6 7 8 9 10 by blast
qed

lemma gen_inv_pop:
  assumes inv: "gen_inv m stack" and ne: "stack \<noteq> []"
    and all: "\<forall>d. in_bounds m (step_to (last stack) d)
                \<longrightarrow> visited (the_cell m (step_to (last stack) d))"
  shows "gen_inv m (butlast stack)"
proof -
  have st: "set stack \<subseteq> visited_cells m"
    and closed: "\<forall>v \<in> visited_cells m. v \<in> set stack
            \<or> (\<forall>d. in_bounds m (step_to v d) \<longrightarrow> step_to v d \<in> visited_cells m)"
    using inv by (simp_all add: gen_inv_def)
  have 2: "set (butlast stack) \<subseteq> visited_cells m"
    using st by (meson in_set_butlastD subset_iff)
  have top: "\<forall>d. in_bounds m (step_to (last stack) d) \<longrightarrow> step_to (last stack) d \<in> visited_cells m"
    using all by (simp add: visited_cells_def)
  have 9: "\<forall>v \<in> visited_cells m. v \<in> set (butlast stack)
            \<or> (\<forall>d. in_bounds m (step_to v d) \<longrightarrow> step_to v d \<in> visited_cells m)"
  proof
    fix v assume v: "v \<in> visited_cells m"
    show "v \<in> set (butlast stack)
            \<or> (\<forall>d. in_bounds m (step_to v d) \<longrightarrow> step_to v d \<in> visited_cells m)"
    proof (cases "v \<in> set stack")
      case True
      then have "v \<in> set (butlast stack) \<or> v = last stack"
        using ne by (metis append_butlast_last_id in_set_conv_decomp_first
            rotate1.simps(2) set_ConsD set_rotate1)
      then show ?thesis using top by blast
    next
      case False
      then show ?thesis using closed v by blast
    qed
  qed
  show ?thesis
    using inv 2 9 unfolding gen_inv_def by blast
qed

lemma generate_loop_inv:
  "gen_inv m stack \<Longrightarrow>
   \<exists>m' r'. generate_loop m stack r = Inr (m', r') \<and> gen_inv m' []
     \<and> width m' = width m \<and> height m' = height m
     \<and> start m' = start m \<and> end_pos m' = end_pos m \<and> cell_size m' = cell_size m"
proof (induction m stack r rule: generate_loop.induct)
  case (1 m stack r)
  show ?case
  proof (cases "stack = []")
    case True
    then show ?thesis using "1.prems" by simp
  next
    case False
    have wf: "wf_grid m" and st: "set stack \<subseteq> visited_cells m"
      using "1.prems" by (simp_all add: gen_inv_def)
    have "last stack \<in> visited_cells m"
      using st False last_in_set by blast
    then have top: "in_bounds m (last stack)"
      by (simp add: visited_cells_def)
    from generate_step_cases[OF wf False top, of r]
    consider (pop) "generate_step m stack r = Inr (m, butlast stack, r)"
        "\<forall>d. in_bounds m (step_to (last stack) d)
                \<longrightarrow> visited (the_cell m (step_to (last stack) d))"
      | (push) d r' where "generate_step m stack r
              = Inr (carve m (last stack) (step_to (last stack) d) d,
                     stack @ [step_to (last stack) d], r')"
          "in_bounds m (step_to (last stack) d)"
          "\<not> visited (the_cell m (step_to (last stack) d))"
      by blast
    then show ?thesis
    proof cases
      case pop
      have "gen_inv m (butlast stack)"
        using gen_inv_pop[OF "1.prems" False pop(2)] .
      from "1.IH"[OF False pop(1)] this
      show ?thesis using False pop(1) by simp
    next
      case push
      let ?m = "carve m (last stack) (step_to (last stack) d) d"
      have "gen_inv ?m (stack @ [step_to (last stack) d])"
        using gen_inv_carve[OF "1.prems" False push(2,3)] .
      from "1.IH"[OF False push(1)] this
      show ?thesis using False push(1) by (simp add: carve_def)
    qed
  qed
qed

definition blank :: "int \<Rightarrow> int \<Rightarrow> int \<Rightarrow> Maze" where
  "blank w h cell_sz =
     \<lparr>width = w, height = h, cell_size = cell_sz,
      cells = map (\<lambda>x. map (\<lambda>y. Cell_init x y) [0..h - 1]) [0..w - 1],
      start = (0, 0), end_pos = (w - 1, h - 1)\<rparr>"

lemma blank_fields [simp]:
  "width (blank w h cs) = w" "height (blank w h cs) = h" "start (blank w h cs) = (0, 0)"
  "end_pos (blank w h cs) = (w - 1, h - 1)" "cell_size (blank w h cs) = cs"
  by (simp_all add: blank_def)

lemma wf_grid_blank: "0 < w \<Longrightarrow> 0 < h \<Longrightarrow> wf_grid (blank w h cs)"
  by (simp add: wf_grid_def blank_def list_all_iff)

lemma the_cell_blank:
  assumes "in_bounds (blank w h cs) p"
  shows "the_cell (blank w h cs) p = Cell_init (fst p) (snd p)"
proof -
  have x: "0 \<le> fst p" "fst p < w" and y: "0 \<le> snd p" "snd p < h"
    using assms by (simp_all add: in_bounds_def)
  have lx: "nat (fst p) < length [0..w - 1]" using x by simp
  have ly: "nat (snd p) < length [0..h - 1]" using y by simp
  have nx: "[0..w - 1] ! nat (fst p) = fst p" using x by (simp add: nth_upto)
  have ny: "[0..h - 1] ! nat (snd p) = snd p" using y by (simp add: nth_upto)
  show ?thesis
    unfolding the_cell_def blank_def using lx ly nx ny by (simp del: length_upto)
qed

lemma Maze_init_blank: "Maze_init w h cs r = generate_maze (blank w h cs) r"
  by (simp add: Maze_init_def blank_def)

lemma has_wall_Cell_init [simp]: "has_wall (Cell_init x y) d"
  by (simp add: has_wall_def Cell_init_def)

lemma gen_inv_initial:
  assumes w: "0 < w" and h: "0 < h"
  shows "gen_inv (set_cell (blank w h cs) (0, 0) (\<lambda>c. c\<lparr>visited := True\<rparr>)) [(0, 0)]"
proof -
  let ?b = "blank w h cs"
  let ?m = "set_cell ?b (0, 0) (\<lambda>c. c\<lparr>visited := True\<rparr>)"
  have wfb: "wf_grid ?b" using w h by (rule wf_grid_blank)
  have ob: "in_bounds ?b (0, 0)" using w h by (simp add: in_bounds_def)
  have cell: "\<And>q. in_bounds ?b q \<Longrightarrow>
      the_cell ?m q = (if q = (0, 0) then (Cell_init 0 0)\<lparr>visited := True\<rparr>
                       else Cell_init (fst q) (snd q))"
    using the_cell_set_cell[OF wfb ob] the_cell_blank ob by simp
  have walls: "\<And>q d. in_bounds ?b q \<Longrightarrow> has_wall (the_cell ?m q) d"
    using cell by simp
  have nopass: "\<And>a b. \<not> passage ?m a b"
    using walls by (auto simp: passage_def)
  have vis: "\<And>q. in_bounds ?b q \<Longrightarrow> visited (the_cell ?m q) \<longleftrightarrow> q = (0, 0)"
    by (simp only: cell) (simp add: Cell_init_def)
  have V: "visited_cells ?m = {(0, 0)}"
  proof (intro set_eqI iffI)
    fix q assume "q \<in> visited_cells ?m"
    then have "in_bounds ?b q" "visited (the_cell ?m q)"
      by (simp_all add: visited_cells_def)
    then show "q \<in> {(0, 0)}" using vis by blast
  next
    fix q :: pos assume "q \<in> {(0, 0)}"
    then have "q = (0, 0)" by simp
    then show "q \<in> visited_cells ?m"
      using vis[OF ob] ob by (simp add: visited_cells_def)
  qed
  have E: "edges ?m = {}" using nopass by (simp add: edges_def)
  have cyc: "\<forall>c. \<not> cycle ?m c"
  proof (intro allI notI)
    fix c assume "cycle ?m c"
    then have "passage ?m (c ! 0) (c ! (Suc 0 mod length c))"
      unfolding cycle_def by (metis less_le_trans numeral_3_eq_3 zero_less_Suc)
    then show False using nopass by blast
  qed
  have flags: "\<forall>p. in_bounds ?m p \<longrightarrow> \<not> is_start (the_cell ?m p) \<and> \<not> is_end (the_cell ?m p)"
    using cell by (simp add: Cell_init_def)
  show ?thesis
    unfolding gen_inv_def using wfb V E cyc flags nopass walls
    by (simp add: wall_symmetric_def)
qed

lemma grid_closed:
  assumes root: "(0, 0) \<in> S"
    and closed: "\<And>v d. v \<in> S \<Longrightarrow> in_bounds m (step_to v d) \<Longrightarrow> step_to v d \<in> S"
    and p: "in_bounds m p"
  shows "p \<in> S"
proof -
  have row: "0 \<le> x \<Longrightarrow> x < width m \<Longrightarrow> (x, 0) \<in> S" for x
  proof (induction x rule: int_ge_induct)
    case base
    then show ?case using root by simp
  next
    case (step i)
    then have "(i, 0) \<in> S" by simp
    moreover have "step_to (i, 0) EAST = (i + 1, 0)" by (simp add: step_to_def)
    moreover have "in_bounds m (i + 1, 0)" using step p by (simp add: in_bounds_def)
    ultimately show ?case using closed by metis
  qed
  have col: "0 \<le> y \<Longrightarrow> y < height m \<Longrightarrow> (fst p, y) \<in> S" for y
  proof (induction y rule: int_ge_induct)
    case base
    then show ?case using row p by (simp add: in_bounds_def)
  next
    case (step i)
    then have "(fst p, i) \<in> S" by simp
    moreover have "step_to (fst p, i) SOUTH = (fst p, i + 1)" by (simp add: step_to_def)
    moreover have "in_bounds m (fst p, i + 1)" using step p by (simp add: in_bounds_def)
    ultimately show ?case using closed by metis
  qed
  have "0 \<le> snd p" "snd p < height m" using p by (simp_all add: in_bounds_def)
  then have "(fst p, snd p) \<in> S" by (rule col)
  then show ?thesis by simp
qed

lemma gen_inv_final:
  assumes "gen_inv m []"
  shows "visited_cells m = grid m"
proof -
  have root: "(0, 0) \<in> visited_cells m"
    and closed: "\<forall>v \<in> visited_cells m. v \<in> set []
            \<or> (\<forall>d. in_bounds m (step_to v d) \<longrightarrow> step_to v d \<in> visited_cells m)"
    using assms by (simp_all add: gen_inv_def)
  have "\<And>p. in_bounds m p \<Longrightarrow> p \<in> visited_cells m"
    by (rule grid_closed[OF root]) (use closed in auto)
  then show ?thesis using visited_cells_grid by (auto simp: grid_def)
qed

lemma card_grid: "0 < width m \<Longrightarrow> 0 < height m \<Longrightarrow> card (grid m) = nat (width m * height m)"
  by (simp add: grid_eq nat_mult_distrib)

lemma passage_same_walls:
  assumes "\<And>q. in_bounds m' q = in_bounds m q"
    and "\<And>q d. in_bounds m q \<Longrightarrow> has_wall (the_cell m' q) d = has_wall (the_cell m q) d"
  shows "passage m' = passage m"
  using assms by (intro ext) (auto simp: passage_def)

lemma wall_symmetric_same_walls:
  assumes "\<And>q. in_bounds m' q = in_bounds m q"
    and "\<And>q d. in_bounds m q \<Longrightarrow> has_wall (the_cell m' q) d = has_wall (the_cell m q) d"
  shows "wall_symmetric m' = wall_symmetric m"
  using assms unfolding wall_symmetric_def by simp

lemma edges_same_passage: "passage m' = passage m \<Longrightarrow> edges m' = edges m"
  by (simp add: edges_def)

lemma cycle_same_passage: "passage m' = passage m \<Longrightarrow> cycle m' c = cycle m c"
  by (simp add: cycle_def)

lemma has_wall_flags [simp]:
  "has_wall (c\<lparr>is_start := b\<rparr>) d = has_wall c d" "has_wall (c\<lparr>is_end := b\<rparr>) d = has_wall c d"
  by (simp_all add: has_wall_def)

definition mark_ends :: "Maze \<Rightarrow> Maze" where
  "mark_ends m = set_cell (set_cell m (start m) (\<lambda>c. c\<lparr>is_start := True\<rparr>)) (end_pos m)
     (\<lambda>c. c\<lparr>is_end := True\<rparr>)"

lemma mark_ends_fields [simp]:
  "width (mark_ends m) = width m" "height (mark_ends m) = height m"
  "start (mark_ends m) = start m" "end_pos (mark_ends m) = end_pos m"
  "in_bounds (mark_ends m) q = in_bounds m q" "wf_grid (mark_ends m) = wf_grid m"
  "cell_size (mark_ends m) = cell_size m"
  by (simp_all add: mark_ends_def)

lemma the_cell_mark_ends:
  assumes "wf_grid m" "in_bounds m (start m)" "in_bounds m (end_pos m)" "in_bounds m q"
  shows "the_cell (mark_ends m) q =
     (if q = end_pos m then
        (if q = start m then (the_cell m q)\<lparr>is_start := True\<rparr> else the_cell m q)\<lparr>is_end := True\<rparr>
      else if q = start m then (the_cell m q)\<lparr>is_start := True\<rparr>
      else the_cell m q)"
  using assms by (simp add: mark_ends_def the_cell_set_cell)

lemma generate_maze_eq:
  assumes inv: "gen_inv (set_cell m (0, 0) (\<lambda>c. c\<lparr>visited := True\<rparr>)) [(0, 0)]"
    and wf: "wf_grid m" and s: "start m = (0, 0)" and e: "in_bounds m (end_pos m)"
  shows "\<exists>m1 r1. generate_maze m r = Inr (mark_ends m1, r1) \<and> gen_inv m1 []
     \<and> width m1 = width m \<and> height m1 = height m
     \<and> start m1 = start m \<and> end_pos m1 = end_pos m \<and> cell_size m1 = cell_size m"
proof -
  let ?m0 = "set_cell m (0, 0) (\<lambda>c. c\<lparr>visited := True\<rparr>)"
  have o: "in_bounds m (0, 0)" using wf by (simp add: wf_grid_def in_bounds_def)
  have c0: "cell_at (cells m) 0 0 = Inr (the_cell m (0, 0))"
    using cell_at_in_bounds[OF wf o] by simp
  obtain m1 r1 where l: "generate_loop ?m0 [(0, 0)] r = Inr (m1, r1)"
    and inv1: "gen_inv m1 []"
    and f: "width m1 = width m" "height m1 = height m" "start m1 = start m"
      "end_pos m1 = end_pos m" "cell_size m1 = cell_size m"
    using generate_loop_inv[OF inv, of r] by auto
  have wf1: "wf_grid m1" using inv1 by (simp add: gen_inv_def)
  have o1: "in_bounds m1 (0, 0)" using o f by (simp add: in_bounds_def)
  have e1: "in_bounds m1 (end_pos m1)" using e f by (simp add: in_bounds_def)
  have cs: "cell_at (cells m1) (fst (start m1)) (snd (start m1)) = Inr (the_cell m1 (start m1))"
    using cell_at_in_bounds[OF wf1, of "start m1"] o1 f s by simp
  let ?m2 = "set_cell m1 (start m1) (\<lambda>c. c\<lparr>is_start := True\<rparr>)"
  have ce: "cell_at (cells ?m2) (fst (end_pos m1)) (snd (end_pos m1))
      = Inr (the_cell ?m2 (end_pos m1))"
    using cell_at_in_bounds[of ?m2 "end_pos m1"] wf1 e1 by simp
  have "generate_maze m r = Inr (mark_ends m1, r1)"
    using c0 l cs ce
    by (simp add: generate_maze_def set_cell_def mark_ends_def)
  then show ?thesis using inv1 f by blast
qed

lemma Maze_init_correct:
  assumes w: "0 < w" and h: "0 < h"
  shows "\<exists>m r'. Maze_init w h cs r = Inr (m, r')
     \<and> wf_grid m \<and> width m = w \<and> height m = h \<and> cell_size m = cs
     \<and> start m = (0, 0) \<and> end_pos m = (w - 1, h - 1)
     \<and> wall_symmetric m
     \<and> (\<forall>v. in_bounds m v \<longrightarrow> (passage m)\<^sup>*\<^sup>* (0, 0) v)
     \<and> card (edges m) + 1 = nat (w * h)
     \<and> (\<forall>c. \<not> cycle m c)
     \<and> (\<forall>p. in_bounds m p \<longrightarrow>
           (is_start (the_cell m p) \<longleftrightarrow> p = (0, 0))
           \<and> (is_end (the_cell m p) \<longleftrightarrow> p = (w - 1, h - 1)))"
proof -
  let ?b = "blank w h cs"
  have wfb: "wf_grid ?b" using w h by (rule wf_grid_blank)
  have eb: "in_bounds ?b (end_pos ?b)" using w h by (simp add: in_bounds_def)
  obtain m1 r1 where g: "generate_maze ?b r = Inr (mark_ends m1, r1)"
    and inv: "gen_inv m1 []"
    and f: "width m1 = w" "height m1 = h" "start m1 = (0, 0)" "end_pos m1 = (w - 1, h - 1)"
      "cell_size m1 = cs"
    using generate_maze_eq[OF gen_inv_initial[OF w h] wfb _ eb, of r] by auto
  let ?m = "mark_ends m1"
  have wf1: "wf_grid m1" and sym1: "wall_symmetric m1"
    and reach1: "\<forall>v \<in> visited_cells m1. (passage m1)\<^sup>*\<^sup>* (0, 0) v"
    and card1: "card (edges m1) + 1 = card (visited_cells m1)"
    and acyc1: "\<forall>c. \<not> cycle m1 c"
    and flags1: "\<forall>p. in_bounds m1 p \<longrightarrow> \<not> is_start (the_cell m1 p) \<and> \<not> is_end (the_cell m1 p)"
    using inv by (simp_all add: gen_inv_def)
  have V: "visited_cells m1 = grid m1" using inv by (rule gen_inv_final)
  have s1: "in_bounds m1 (start m1)" using f w h by (simp add: in_bounds_def)
  have e1: "in_bounds m1 (end_pos m1)" using f w h by (simp add: in_bounds_def)
  have cell: "\<And>q. in_bounds m1 q \<Longrightarrow> the_cell ?m q =
     (if q = end_pos m1 then
        (if q = start m1 then (the_cell m1 q)\<lparr>is_start := True\<rparr> else the_cell m1 q)\<lparr>is_end := True\<rparr>
      else if q = start m1 then (the_cell m1 q)\<lparr>is_start := True\<rparr>
      else the_cell m1 q)"
    using the_cell_mark_ends[OF wf1 s1 e1] by blast
  have hw: "\<And>q d. in_bounds m1 q \<Longrightarrow> has_wall (the_cell ?m q) d = has_wall (the_cell m1 q) d"
    by (simp add: cell)
  have ib: "\<And>q. in_bounds ?m q = in_bounds m1 q" by simp
  have pass: "passage ?m = passage m1" using ib hw by (rule passage_same_walls)
  have 1: "wf_grid ?m" using wf1 by simp
  have 2: "wall_symmetric ?m"
    using wall_symmetric_same_walls[of ?m m1, OF ib hw] sym1 by simp
  have 3: "\<forall>v. in_bounds ?m v \<longrightarrow> (passage ?m)\<^sup>*\<^sup>* (0, 0) v"
    using reach1 V by (simp add: pass grid_def)
  have "card (grid m1) = nat (w * h)" using card_grid[of m1] f w h by simp
  then have 4: "card (edges ?m) + 1 = nat (w * h)"
    using card1 V edges_same_passage[OF pass] by simp
  have 5: "\<forall>c. \<not> cycle ?m c" using acyc1 cycle_same_passage[OF pass] by simp
  have 6: "\<forall>p. in_bounds ?m p \<longrightarrow>
           (is_start (the_cell ?m p) \<longleftrightarrow> p = (0, 0))
           \<and> (is_end (the_cell ?m p) \<longleftrightarrow> p = (w - 1, h - 1))"
    using flags1 f by (simp add: cell)
  have 7: "cell_size ?m = cs \<and> width ?m = w \<and> height ?m = h \<and> start ?m = (0, 0)
      \<and> end_pos ?m = (w - 1, h - 1)"
    using f by simp
  show ?thesis
    using g 1 2 3 4 5 6 7 unfolding Maze_init_blank by blast
qed

definition constructed :: "error + Maze \<times> rng \<Rightarrow> Maze option" where
  "constructed res = (case res of Inl e \<Rightarrow> None | Inr s \<Rightarrow> Some (fst s))"

definition wall_layout :: "Maze \<Rightarrow> bool list list list" where
  "wall_layout m = map (map (\<lambda>c. map (has_wall c) Direction_members)) (cells m)"

definition always_first :: rng where
  "always_first = (\<lambda>i. 0)"


definition flags_layout :: "Maze \<Rightarrow> (bool \<times> bool) list list" where
  "flags_layout m = map (map (\<lambda>c. (is_start c, is_end c))) (cells m)"

lemma passage_sym: "wall_symmetric m \<Longrightarrow> passage m a b \<Longrightarrow> passage m b a"
proof -
  assume sym: "wall_symmetric m" and ab: "passage m a b"
  then obtain d where a: "in_bounds m a" and b: "in_bounds m b" and s: "b = step_to a d"
    and w: "\<not> has_wall (the_cell m a) d"
    by (auto simp: passage_def)
  have "\<not> has_wall (the_cell m b) (opposite d)"
    using sym a b s w unfolding wall_symmetric_def by blast
  moreover have "a = step_to b (opposite d)" using s by simp
  ultimately show "passage m b a"
    using a b Direction_members_all[of "opposite d"] unfolding passage_def by blast
qed

lemma reach_sym:
  assumes "wall_symmetric m" "(passage m)\<^sup>*\<^sup>* a b"
  shows "(passage m)\<^sup>*\<^sup>* b a"
  using assms(2)
proof (induction rule: rtranclp_induct)
  case base
  then show ?case by simp
next
  case (step y z)
  have "passage m z y" using passage_sym[OF assms(1) step(2)] .
  then show ?case using step(3) by (meson converse_rtranclp_into_rtranclp)
qed

section \<open>Construction\<close>

text \<open>
  Claim C7: for every width or height that is not positive the construction fails: it
  raises (\<open>IndexError\<close>, from \<open>cells[0][0]\<close> in \<open>_generate_maze\<close>), so the caller
  receives the exception and no maze.
\<close>

theorem construction_fails_fast:
  "w \<le> 0 \<or> h \<le> 0 \<Longrightarrow> Maze_init w h cell_sz r = Inl IndexError"
proof (cases "w \<le> 0")
  case True
  then have "[0..w - 1] = []" by simp
  then show ?thesis
    by (simp add: Maze_init_def generate_maze_def cell_at_def locate_def py_index_def)
next
  case False
  assume "w \<le> 0 \<or> h \<le> 0"
  with False have h: "h \<le> 0" and w: "0 < w" by auto
  have e: "[0..h - 1] = []" using h by simp
  have n: "map (\<lambda>x. map (\<lambda>y. Cell_init x y) [0..h - 1]) [0..w - 1] ! 0 = []"
    using w by (simp add: e)
  show ?thesis
    using w n by (simp add: Maze_init_def generate_maze_def cell_at_def locate_def py_index_def e)
qed

theorem construction_fails_fast_witness:
  "((0::int) \<le> 0 \<or> (5::int) \<le> 0) \<and> Maze_init 0 5 20 (\<lambda>i. 0) = Inl IndexError"
  using construction_fails_fast [of 0 5 20 "\<lambda>i. 0"] by simp

text \<open>
  Claim C1: for every maze constructed with positive width and height, the construction
  returns a maze whose connectivity graph is connected (every cell is reached from every
  cell), has no cycle, and has exactly \<open>width * height - 1\<close> edges.
\<close>

theorem generated_maze_is_spanning_tree:
  assumes "0 < w" "0 < h"
  shows "\<exists>m r'. Maze_init w h cell_sz r = Inr (m, r') \<and> width m = w \<and> height m = h
     \<and> (\<forall>p q. in_bounds m p \<and> in_bounds m q \<longrightarrow> (passage m)\<^sup>*\<^sup>* p q)
     \<and> (\<forall>c. \<not> cycle m c)
     \<and> int (card (edges m)) = w * h - 1"
proof -
  obtain m r' where m: "Maze_init w h cell_sz r = Inr (m, r')" "width m = w" "height m = h"
    and sym: "wall_symmetric m"
    and reach: "\<forall>v. in_bounds m v \<longrightarrow> (passage m)\<^sup>*\<^sup>* (0, 0) v"
    and card: "card (edges m) + 1 = nat (w * h)"
    and acyc: "\<forall>c. \<not> cycle m c"
    using Maze_init_correct[OF assms, of cell_sz r] by blast
  have conn: "\<forall>p q. in_bounds m p \<and> in_bounds m q \<longrightarrow> (passage m)\<^sup>*\<^sup>* p q"
  proof (intro allI impI)
    fix p q assume "in_bounds m p \<and> in_bounds m q"
    then have "(passage m)\<^sup>*\<^sup>* (0, 0) p" "(passage m)\<^sup>*\<^sup>* (0, 0) q" using reach by blast+
    then show "(passage m)\<^sup>*\<^sup>* p q"
      using reach_sym[OF sym] by (meson rtranclp_trans)
  qed
  have "0 < w * h" using assms by simp
  then have "int (card (edges m)) = w * h - 1" using card by linarith
  then show ?thesis using m conn acyc by blast
qed

theorem generated_maze_is_spanning_tree_witness:
  "(0::int) < 2 \<and> (0::int) < 3
   \<and> (\<exists>m r'. Maze_init 2 3 20 always_first = Inr (m, r') \<and> width m = 2 \<and> height m = 3
        \<and> (passage m)\<^sup>*\<^sup>* (0, 0) (1, 2)
        \<and> (\<forall>c. \<not> cycle m c)
        \<and> int (card (edges m)) = 5)"
proof -
  obtain m r' where m: "Maze_init 2 3 20 always_first = Inr (m, r')" "width m = 2" "height m = 3"
    and conn: "\<forall>p q. in_bounds m p \<and> in_bounds m q \<longrightarrow> (passage m)\<^sup>*\<^sup>* p q"
    and rest: "\<forall>c. \<not> cycle m c" "int (card (edges m)) = 2 * 3 - 1"
    using generated_maze_is_spanning_tree [of 2 3 20 always_first] by auto
  have "in_bounds m (0, 0) \<and> in_bounds m (1, 2)" using m by (simp add: in_bounds_def)
  then have "(passage m)\<^sup>*\<^sup>* (0, 0) (1, 2)" using conn by blast
  then show ?thesis using m rest by auto
qed

text \<open>
  Claim C2: in every constructed maze, for every pair of cells sharing a grid edge, the
  wall of the one towards the other is present exactly when the wall of the other
  towards the one is. The symmetry holds of the maze that the constructor returns;
  the solvers take the maze and return a path only, so nothing changes a wall
  afterwards.
\<close>

theorem generated_walls_symmetric:
  assumes "0 < w" "0 < h"
  shows "\<exists>m r'. Maze_init w h cell_sz r = Inr (m, r') \<and> width m = w \<and> height m = h
     \<and> wf_grid m
     \<and> (\<forall>p d. in_bounds m p \<and> in_bounds m (step_to p d) \<longrightarrow>
           has_wall (the_cell m p) d
             = has_wall (the_cell m (step_to p d)) (opposite d))"
  using Maze_init_correct[OF assms, of cell_sz r] unfolding wall_symmetric_def by blast

theorem generated_walls_symmetric_witness:
  "(0::int) < 2 \<and> (0::int) < 3
   \<and> (\<exists>m r'. Maze_init 2 3 20 always_first = Inr (m, r')
        \<and> in_bounds m (0, 0) \<and> in_bounds m (step_to (0, 0) SOUTH)
        \<and> has_wall (the_cell m (0, 0)) SOUTH
            = has_wall (the_cell m (step_to (0, 0) SOUTH)) (opposite SOUTH))"
proof -
  obtain m r' where m: "Maze_init 2 3 20 always_first = Inr (m, r')" "width m = 2" "height m = 3"
    and sym: "\<forall>p d. in_bounds m p \<and> in_bounds m (step_to p d) \<longrightarrow>
           has_wall (the_cell m p) d = has_wall (the_cell m (step_to p d)) (opposite d)"
    using generated_walls_symmetric [of 2 3 20 always_first] by auto
  have b: "in_bounds m (0, 0) \<and> in_bounds m (step_to (0, 0) SOUTH)"
    using m by (simp add: in_bounds_def step_to_def)
  then have "has_wall (the_cell m (0, 0)) SOUTH
      = has_wall (the_cell m (step_to (0, 0) SOUTH)) (opposite SOUTH)"
    using sym by blast
  then show ?thesis using m(1) b by auto
qed

text \<open>
  Claim C9, as the code has it: in every maze constructed with positive width and
  height, \<open>is_start\<close> is set on the cell at \<open>(0, 0)\<close> and on no other, and \<open>is_end\<close>
  on the cell at \<open>(width - 1, height - 1)\<close> and on no other; a cell has both only in
  the maze of one cell, where start and end are the same cell.
\<close>

theorem start_end_flags:
  assumes "0 < w" "0 < h"
  shows "\<exists>m r'. Maze_init w h cell_sz r = Inr (m, r') \<and> width m = w \<and> height m = h
     \<and> wf_grid m
     \<and> (\<forall>p. in_bounds m p \<longrightarrow>
           (is_start (the_cell m p) \<longleftrightarrow> p = (0, 0))
           \<and> (is_end (the_cell m p) \<longleftrightarrow> p = (w - 1, h - 1))
           \<and> (is_start (the_cell m p) \<and> is_end (the_cell m p) \<longrightarrow> w = 1 \<and> h = 1))"
proof -
  obtain m r' where m: "Maze_init w h cell_sz r = Inr (m, r')" "width m = w" "height m = h"
      "wf_grid m"
    and fl: "\<forall>p. in_bounds m p \<longrightarrow>
           (is_start (the_cell m p) \<longleftrightarrow> p = (0, 0))
           \<and> (is_end (the_cell m p) \<longleftrightarrow> p = (w - 1, h - 1))"
    using Maze_init_correct[OF assms, of cell_sz r] by blast
  have "\<forall>p. in_bounds m p \<longrightarrow>
           (is_start (the_cell m p) \<and> is_end (the_cell m p) \<longrightarrow> w = 1 \<and> h = 1)"
    using fl by auto
  then show ?thesis using m fl by blast
qed

theorem start_end_flags_witness:
  "(0::int) < 2 \<and> (0::int) < 3
   \<and> (\<exists>m r'. Maze_init 2 3 20 always_first = Inr (m, r')
        \<and> in_bounds m (0, 0) \<and> in_bounds m (1, 2)
        \<and> is_start (the_cell m (0, 0)) \<and> \<not> is_end (the_cell m (0, 0))
        \<and> is_end (the_cell m (1, 2)) \<and> \<not> is_start (the_cell m (1, 2)))"
proof -
  obtain m r' where m: "Maze_init 2 3 20 always_first = Inr (m, r')" "width m = 2" "height m = 3"
    and fl: "\<forall>p. in_bounds m p \<longrightarrow>
           (is_start (the_cell m p) \<longleftrightarrow> p = (0, 0))
           \<and> (is_end (the_cell m p) \<longleftrightarrow> p = (2 - 1, 3 - 1))"
    using start_end_flags [of 2 3 20 always_first] by auto
  have b: "in_bounds m (0, 0)" "in_bounds m (1, 2)"
    using m by (simp_all add: in_bounds_def)
  show ?thesis using m(1) b fl[rule_format, OF b(1)] fl[rule_format, OF b(2)] by auto
qed

text \<open>
  The claim as stated fails on the maze of one cell: its cell has both flags.
\<close>

theorem start_end_flags_both_on_single_cell:
  "map_option flags_layout (constructed (Maze_init 1 1 20 always_first)) = Some [[(True, True)]]"
  by code_simp

section \<open>Reproducibility\<close>


lemma in_bounds_cell_size [simp]: "in_bounds (m\<lparr>cell_size := c\<rparr>) = in_bounds m"
  by (intro ext) (simp add: in_bounds_def)

lemma get_neighbors_cell_size [simp]:
  "get_neighbors (m\<lparr>cell_size := c\<rparr>) x y = get_neighbors m x y"
  by (simp add: get_neighbors_def)

lemma carve_cell_size [simp]:
  "carve (m\<lparr>cell_size := c\<rparr>) p n d = (carve m p n d)\<lparr>cell_size := c\<rparr>"
  by (simp add: carve_def)





lemma wall_layout_cell_size [simp]: "wall_layout (m\<lparr>cell_size := c\<rparr>) = wall_layout m"
  by (simp add: wall_layout_def)



section \<open>Correctness of the breadth-first and depth-first solvers\<close>

text \<open>
  On a well-formed grid \<open>_get_connected_neighbors\<close> returns the successors of a cell in
  the connectivity graph. A route is a non-empty list of cells, each joined by a passage
  to the next. The invariant shared by the two searches: every entry of the frontier
  holds a route without repetition from \<open>start\<close> to its cell, made of seen cells; a
  seen cell is on the frontier or all its successors are seen; and \<open>end\<close>, once seen,
  is on the frontier. The breadth-first search keeps in addition its queue ordered by
  the length of the routes, which are shortest.
\<close>

definition successors :: "Maze \<Rightarrow> pos \<Rightarrow> pos list" where
  "successors m c =
     map (step_to c)
       (filter (\<lambda>d. in_bounds m (step_to c d) \<and> \<not> has_wall (the_cell m c) d) Direction_members)"

definition route :: "Maze \<Rightarrow> pos \<Rightarrow> pos \<Rightarrow> pos list \<Rightarrow> bool" where
  "route m a b p \<longleftrightarrow> p \<noteq> [] \<and> hd p = a \<and> last p = b \<and> successively (passage m) p"

definition reachable :: "Maze \<Rightarrow> bool" where
  "reachable m \<longleftrightarrow> (passage m)\<^sup>*\<^sup>* (start m) (end_pos m)"

definition frontier_inv :: "Maze \<Rightarrow> (pos \<times> pos list) list \<Rightarrow> pos set \<Rightarrow> bool" where
  "frontier_inv m F V \<longleftrightarrow>
     (\<forall>e \<in> set F. route m (start m) (fst e) (snd e) \<and> distinct (snd e) \<and> set (snd e) \<subseteq> V
         \<and> in_bounds m (fst e))
     \<and> start m \<in> V
     \<and> (\<forall>v \<in> V. v \<in> fst ` set F \<or> (\<forall>w. passage m v w \<longrightarrow> w \<in> V))
     \<and> (end_pos m \<in> V \<longrightarrow> end_pos m \<in> fst ` set F)"

lemma connected_from_wf:
  assumes "wf_grid m" "in_bounds m c"
  shows "connected_from m (fst c) (snd c) ds =
     Inr (map (step_to c)
            (filter (\<lambda>d. in_bounds m (step_to c d) \<and> \<not> has_wall (the_cell m c) d) ds))"
proof (induction ds)
  case Nil
  then show ?case by simp
next
  case (Cons d ds)
  have s: "(fst c + fst (Direction_value d), snd c + snd (Direction_value d)) = step_to c d"
    by (simp add: step_to_def)
  show ?case
    using Cons cell_at_in_bounds[OF assms] by (simp add: Let_def s)
qed

lemma get_connected_neighbors_wf:
  "wf_grid m \<Longrightarrow> in_bounds m c \<Longrightarrow>
   get_connected_neighbors m (fst c) (snd c) = Inr (successors m c)"
  by (simp add: get_connected_neighbors_def successors_def connected_from_wf)

lemma set_successors: "in_bounds m c \<Longrightarrow> q \<in> set (successors m c) \<longleftrightarrow> passage m c q"
  by (auto simp: successors_def passage_def)

lemma passage_in_bounds: "passage m a b \<Longrightarrow> in_bounds m a \<and> in_bounds m b"
  by (simp add: passage_def)

lemma expand_spec:
  "\<exists>G. expand p ns (V, F) = (V \<union> set ns, F @ G)
     \<and> fst ` set G = set ns - V \<and> (\<forall>e \<in> set G. snd e = p @ [fst e])"
proof (induction ns arbitrary: V F)
  case Nil
  then show ?case by simp
next
  case (Cons n ns)
  show ?case
  proof (cases "n \<in> V")
    case True
    obtain G where G: "expand p ns (V, F) = (V \<union> set ns, F @ G)"
      "fst ` set G = set ns - V" "\<forall>e \<in> set G. snd e = p @ [fst e]"
      using Cons[of V F] by blast
    have "fst ` set G = set (n # ns) - V" using G(2) True by auto
    moreover have "expand p (n # ns) (V, F) = (V \<union> set (n # ns), F @ G)"
      using True G(1) by auto
    ultimately show ?thesis using G(3) by blast
  next
    case False
    obtain G where G: "expand p ns (insert n V, F @ [(n, p @ [n])])
        = (insert n V \<union> set ns, (F @ [(n, p @ [n])]) @ G)"
      "fst ` set G = set ns - insert n V" "\<forall>e \<in> set G. snd e = p @ [fst e]"
      using Cons[of "insert n V" "F @ [(n, p @ [n])]"] by blast
    let ?G = "(n, p @ [n]) # G"
    have "expand p (n # ns) (V, F) = (V \<union> set (n # ns), F @ ?G)"
      using False G(1) by simp
    moreover have "fst ` set ?G = set (n # ns) - V" using G(2) False by auto
    moreover have "\<forall>e \<in> set ?G. snd e = p @ [fst e]" using G(3) by simp
    ultimately show ?thesis by blast
  qed
qed

lemma route_snoc:
  assumes "route m a c p" "passage m c n"
  shows "route m a n (p @ [n])"
  using assms by (auto simp: route_def successively_append_iff)

lemma frontier_inv_step:
  assumes inv: "frontier_inv m (xs @ (c, p) # ys) V"
    and ne: "c \<noteq> end_pos m"
    and ex: "expand p (successors m c) (V, xs @ ys) = (V', F')"
  shows "frontier_inv m F' V'"
proof -
  let ?F = "xs @ (c, p) # ys"
  have ent: "\<And>e. e \<in> set ?F \<Longrightarrow> route m (start m) (fst e) (snd e) \<and> distinct (snd e)
         \<and> set (snd e) \<subseteq> V \<and> in_bounds m (fst e)"
    and st: "start m \<in> V"
    and cl: "\<And>v. v \<in> V \<Longrightarrow> v \<in> fst ` set ?F \<or> (\<forall>w. passage m v w \<longrightarrow> w \<in> V)"
    and en: "end_pos m \<in> V \<longrightarrow> end_pos m \<in> fst ` set ?F"
    using inv unfolding frontier_inv_def by blast+
  have cp: "route m (start m) c p" "distinct p" "set p \<subseteq> V" "in_bounds m c"
    using ent[of "(c, p)"] by simp_all
  obtain G where V': "V' = V \<union> set (successors m c)" and F': "F' = (xs @ ys) @ G"
    and Gf: "fst ` set G = set (successors m c) - V"
    and Gp: "\<forall>e \<in> set G. snd e = p @ [fst e]"
    using expand_spec[of p "successors m c" V "xs @ ys"] ex by auto
  have sc: "\<And>q. q \<in> set (successors m c) \<longleftrightarrow> passage m c q"
    using set_successors[OF cp(4)] by blast
  have 1: "\<forall>e \<in> set F'. route m (start m) (fst e) (snd e) \<and> distinct (snd e)
         \<and> set (snd e) \<subseteq> V' \<and> in_bounds m (fst e)"
  proof
    fix e assume "e \<in> set F'"
    then consider "e \<in> set ?F" | "e \<in> set G" using F' by auto
    then show "route m (start m) (fst e) (snd e) \<and> distinct (snd e)
         \<and> set (snd e) \<subseteq> V' \<and> in_bounds m (fst e)"
    proof cases
      case 1
      then show ?thesis using ent[OF 1] V' by auto
    next
      case 2
      then have n: "fst e \<in> set (successors m c)" "fst e \<notin> V" using Gf by auto
      have pe: "snd e = p @ [fst e]" using Gp 2 by blast
      have pa: "passage m c (fst e)" using n(1) sc by blast
      have "route m (start m) (fst e) (snd e)"
        unfolding pe using cp(1) pa by (rule route_snoc)
      moreover have "distinct (snd e)" using cp(2,3) n(2) pe by auto
      moreover have "set (snd e) \<subseteq> V'" using cp(3) n(1) pe V' by auto
      moreover have "in_bounds m (fst e)" using pa passage_in_bounds by blast
      ultimately show ?thesis by blast
    qed
  qed
  have 2: "start m \<in> V'" using st V' by simp
  have 3: "\<forall>v \<in> V'. v \<in> fst ` set F' \<or> (\<forall>w. passage m v w \<longrightarrow> w \<in> V')"
  proof
    fix v assume v: "v \<in> V'"
    show "v \<in> fst ` set F' \<or> (\<forall>w. passage m v w \<longrightarrow> w \<in> V')"
    proof (cases "v \<in> V")
      case False
      then have "v \<in> set (successors m c) - V" using v V' by blast
      then show ?thesis using Gf F' by auto
    next
      case True
      show ?thesis
      proof (cases "v = c")
        case True
        then show ?thesis using sc V' by blast
      next
        case False
        from cl[OF True] consider "v \<in> fst ` set ?F" | "\<forall>w. passage m v w \<longrightarrow> w \<in> V"
          by blast
        then show ?thesis
        proof cases
          case 1
          then have "v \<in> fst ` set (xs @ ys)" using False by auto
          then show ?thesis using F' by auto
        next
          case 2
          then show ?thesis using V' by blast
        qed
      qed
    qed
  qed
  have 4: "end_pos m \<in> V' \<longrightarrow> end_pos m \<in> fst ` set F'"
  proof
    assume e: "end_pos m \<in> V'"
    show "end_pos m \<in> fst ` set F'"
    proof (cases "end_pos m \<in> V")
      case True
      then have "end_pos m \<in> fst ` set ?F" using en by blast
      then have "end_pos m \<in> fst ` set (xs @ ys)" using ne by auto
      then show ?thesis using F' by auto
    next
      case False
      then have "end_pos m \<in> set (successors m c) - V" using e V' by blast
      then show ?thesis using Gf F' by auto
    qed
  qed
  show ?thesis unfolding frontier_inv_def using 1 2 3 4 by blast
qed

lemma frontier_inv_init:
  "in_bounds m (start m) \<Longrightarrow> frontier_inv m [(start m, [start m])] {start m}"
  by (simp add: frontier_inv_def route_def)

lemma frontier_inv_empty:
  assumes "frontier_inv m [] V"
  shows "\<not> reachable m"
proof
  assume "reachable m"
  then have r: "(passage m)\<^sup>*\<^sup>* (start m) (end_pos m)" by (simp add: reachable_def)
  have st: "start m \<in> V" and cl: "\<And>v w. v \<in> V \<Longrightarrow> passage m v w \<Longrightarrow> w \<in> V"
    and en: "end_pos m \<notin> V"
    using assms unfolding frontier_inv_def by auto
  from r have "end_pos m \<in> V"
    by (induction rule: rtranclp_induct) (use st cl in blast)+
  then show False using en by blast
qed


definition bfs_inv :: "Maze \<Rightarrow> (pos \<times> pos list) list \<Rightarrow> pos set \<Rightarrow> bool" where
  "bfs_inv m F V \<longleftrightarrow>
     frontier_inv m F V
     \<and> (\<forall>e \<in> set F. \<forall>k. ((passage m) ^^ k) (start m) (fst e) \<longrightarrow> length (snd e) \<le> k + 1)
     \<and> sorted (map (\<lambda>e. length (snd e)) F)
     \<and> (F \<noteq> [] \<longrightarrow>
          length (snd (last F)) \<le> length (snd (hd F)) + 1
          \<and> (\<forall>v k. ((passage m) ^^ k) (start m) v \<and> k + 1 \<le> length (snd (hd F)) \<longrightarrow> v \<in> V))"

lemma dfs_loop_correct:
  "wf_grid m \<Longrightarrow> frontier_inv m F V \<Longrightarrow>
   \<exists>p. dfs_loop m F V = Inr p
     \<and> ((p = [] \<and> \<not> reachable m) \<or> (route m (start m) (end_pos m) p \<and> distinct p))"
proof (induction m F V rule: dfs_loop.induct)
  case (1 m stack seen)
  show ?case
  proof (cases "stack = []")
    case True
    then show ?thesis using frontier_inv_empty "1.prems" by auto
  next
    case False
    let ?c = "fst (last stack)"
    let ?p = "snd (last stack)"
    have split: "stack = butlast stack @ (?c, ?p) # []" using False by simp
    have top: "route m (start m) ?c ?p" "distinct ?p" "in_bounds m ?c"
      using "1.prems"(2) False unfolding frontier_inv_def by (simp_all add: last_in_set)
    show ?thesis
    proof (cases "?c = end_pos m")
      case True
      then show ?thesis using top False by (auto simp: route_def)
    next
      case ne: False
      have g: "get_connected_neighbors m (fst ?c) (snd ?c) = Inr (successors m ?c)"
        using get_connected_neighbors_wf[OF "1.prems"(1) top(3)] .
      let ?s = "expand ?p (successors m ?c) (seen, butlast stack)"
      have "frontier_inv m (butlast stack @ (?c, ?p) # []) seen"
        using "1.prems"(2) split by simp
      then have "frontier_inv m (snd ?s) (fst ?s)"
        using frontier_inv_step[OF _ ne, of "butlast stack" ?p "[]" seen "fst ?s" "snd ?s"]
        by simp
      from "1.IH"[OF False ne g "1.prems"(1) this]
      show ?thesis using False ne g by simp
    qed
  qed
qed

lemma sorted_le_last: "sorted xs \<Longrightarrow> x \<in> set xs \<Longrightarrow> x \<le> last xs"
  for xs :: "nat list"
proof (induction xs)
  case Nil
  then show ?case by simp
next
  case (Cons a xs)
  show ?case
  proof (cases "xs = []")
    case True
    then show ?thesis using Cons.prems by simp
  next
    case False
    then have "last xs \<in> set xs" by simp
    then show ?thesis using Cons False by auto
  qed
qed

lemma sorted_map_const: "(\<And>e. e \<in> set G \<Longrightarrow> f e = c) \<Longrightarrow> sorted (map f G)"
  for c :: nat
  by (induction G) auto

lemma relpowp_last_step:
  "(R ^^ Suc k) a b \<Longrightarrow> \<exists>u. (R ^^ k) a u \<and> R u b"
  by auto

lemma bfs_inv_step:
  assumes inv: "bfs_inv m ((c, p) # rest) V"
    and ne: "c \<noteq> end_pos m"
    and ex: "expand p (successors m c) (V, rest) = (V', F')"
  shows "bfs_inv m F' V'"
proof -
  let ?F = "(c, p) # rest"
  let ?W = "\<lambda>k v. ((passage m) ^^ k) (start m) v"
  have fi: "frontier_inv m ?F V"
    and B1: "\<forall>e \<in> set ?F. \<forall>k. ?W k (fst e) \<longrightarrow> length (snd e) \<le> k + 1"
    and so: "sorted (map (\<lambda>e. length (snd e)) ?F)"
    and B3: "?F \<noteq> [] \<longrightarrow>
          length (snd (last ?F)) \<le> length (snd (hd ?F)) + 1
          \<and> (\<forall>v k. ?W k v \<and> k + 1 \<le> length (snd (hd ?F)) \<longrightarrow> v \<in> V)"
    using inv unfolding bfs_inv_def by blast+
  have sh: "\<And>e k. e \<in> set ?F \<Longrightarrow> ?W k (fst e) \<Longrightarrow> length (snd e) \<le> k + 1"
    using B1 by blast
  have la: "length (snd (last ?F)) \<le> length p + 1"
    using B3 by (simp del: last.simps)
  have B3': "\<forall>v k. ?W k v \<and> k + 1 \<le> length p \<longrightarrow> v \<in> V"
    using B3 by (simp del: last.simps)
  have lv: "\<And>v k. ?W k v \<Longrightarrow> k + 1 \<le> length p \<Longrightarrow> v \<in> V"
    using B3' by blast
  have cb: "in_bounds m c"
    and cl: "\<And>v. v \<in> V \<Longrightarrow> v \<in> fst ` set ?F \<or> (\<forall>w. passage m v w \<longrightarrow> w \<in> V)"
    using fi unfolding frontier_inv_def by auto
  obtain G where V': "V' = V \<union> set (successors m c)" and F': "F' = rest @ G"
    and Gf: "fst ` set G = set (successors m c) - V"
    and Gp: "\<forall>e \<in> set G. snd e = p @ [fst e]"
    using expand_spec[of p "successors m c" V rest] ex by auto
  have sc: "\<And>q. q \<in> set (successors m c) \<longleftrightarrow> passage m c q"
    using set_successors[OF cb] by blast
  have Glen: "\<And>e. e \<in> set G \<Longrightarrow> length (snd e) = length p + 1" using Gp by simp
  have rest_ge: "\<And>e. e \<in> set rest \<Longrightarrow> length p \<le> length (snd e)"
    using so by auto
  have rest_le: "\<And>e. e \<in> set rest \<Longrightarrow> length (snd e) \<le> length p + 1"
  proof -
    fix e assume e: "e \<in> set rest"
    then have ne': "rest \<noteq> []" by auto
    have "sorted (map (\<lambda>e. length (snd e)) rest)" using so by simp
    then have "length (snd e) \<le> length (snd (last rest))"
      using sorted_le_last[of "map (\<lambda>e. length (snd e)) rest" "length (snd e)"] e ne'
      by (simp add: last_map)
    then show "length (snd e) \<le> length p + 1" using la ne' by simp
  qed
  have 0: "frontier_inv m F' V'"
    using frontier_inv_step[of m "[]" c p rest V V' F'] fi ne ex by simp
  have 1: "\<forall>e \<in> set F'. \<forall>k. ?W k (fst e) \<longrightarrow> length (snd e) \<le> k + 1"
  proof (intro ballI allI impI)
    fix e k assume e: "e \<in> set F'" and w: "?W k (fst e)"
    from e F' consider "e \<in> set rest" | "e \<in> set G" by auto
    then show "length (snd e) \<le> k + 1"
    proof cases
      case 1
      then show ?thesis using sh[of e k] w by simp
    next
      case 2
      then have nV: "fst e \<notin> V" using Gf by auto
      have "\<not> k + 1 \<le> length p" using lv[OF w] nV by blast
      then show ?thesis using Glen[OF 2] by simp
    qed
  qed
  have "sorted (map (\<lambda>e. length (snd e)) G)"
    using Glen by (rule sorted_map_const)
  moreover have "sorted (map (\<lambda>e. length (snd e)) rest)" using so by simp
  moreover have "\<And>a b. a \<in> set rest \<Longrightarrow> b \<in> set G \<Longrightarrow> length (snd a) \<le> length (snd b)"
    using rest_le Glen by simp
  ultimately have 2: "sorted (map (\<lambda>e. length (snd e)) F')"
    unfolding F' by (auto simp: sorted_append)
  have all_le: "length (snd e) \<le> length p + 1" if "e \<in> set F'" for e
  proof -
    from that F' consider "e \<in> set rest" | "e \<in> set G" by auto
    then show ?thesis
    proof cases
      case 1
      then show ?thesis by (rule rest_le)
    next
      case 2
      then show ?thesis using Glen[OF 2] by simp
    qed
  qed
  have all_ge: "length p \<le> length (snd e)" if "e \<in> set F'" for e
  proof -
    from that F' consider "e \<in> set rest" | "e \<in> set G" by auto
    then show ?thesis
    proof cases
      case 1
      then show ?thesis by (rule rest_ge)
    next
      case 2
      then show ?thesis using Glen[OF 2] by simp
    qed
  qed
  have 3: "F' \<noteq> [] \<longrightarrow> length (snd (last F')) \<le> length (snd (hd F')) + 1"
  proof
    assume n: "F' \<noteq> []"
    have "length p \<le> length (snd (hd F'))"
      using all_ge[of "hd F'"] n by simp
    moreover have "length (snd (last F')) \<le> length p + 1"
      using all_le[of "last F'"] n by simp
    ultimately show "length (snd (last F')) \<le> length (snd (hd F')) + 1" by simp
  qed
  have 4: "F' \<noteq> [] \<longrightarrow> (\<forall>v k. ?W k v \<and> k + 1 \<le> length (snd (hd F')) \<longrightarrow> v \<in> V')"
  proof (intro impI allI)
    fix v k assume n: "F' \<noteq> []" and wk: "?W k v \<and> k + 1 \<le> length (snd (hd F'))"
    have hd_le: "length (snd (hd F')) \<le> length p + 1"
      using all_le[of "hd F'"] n by simp
    show "v \<in> V'"
    proof (cases "k + 1 \<le> length p")
      case True
      then show ?thesis using lv wk V' by blast
    next
      case False
      then have k: "k = length p" and hd: "length (snd (hd F')) = length p + 1"
        using wk hd_le by linarith+
      have "p \<noteq> []" using fi unfolding frontier_inv_def route_def by auto
      then have "0 < k" using k by simp
      then obtain j where j: "k = Suc j" using gr0_implies_Suc by blast
      obtain u where u: "?W j u" "passage m u v"
        using wk j relpowp_last_step[where R = "passage m" and k = j and a = "start m" and b = v]
        by blast
      have uV: "u \<in> V" using lv[OF u(1)] j k by simp
      from cl[OF uV] consider "u = c" | "u \<in> fst ` set rest" | "\<forall>w. passage m u w \<longrightarrow> w \<in> V"
        by auto
      then show ?thesis
      proof cases
        case 1
        then show ?thesis using u(2) sc V' by blast
      next
        case 2
        then obtain e where e: "e \<in> set rest" "fst e = u" by auto
        have "length (snd e) \<le> j + 1" using sh[of e j] e u(1) by simp
        moreover have "length (snd (hd F')) \<le> length (snd e)"
        proof -
          have "rest \<noteq> []" using e by auto
          then have "hd F' = hd rest" using F' by simp
          moreover have "sorted (map (\<lambda>e. length (snd e)) rest)" using so by simp
          ultimately show ?thesis
            using e(1) \<open>rest \<noteq> []\<close> by (cases rest) auto
        qed
        ultimately show ?thesis using hd j k by simp
      next
        case 3
        then show ?thesis using u(2) V' by blast
      qed
    qed
  qed
  show ?thesis unfolding bfs_inv_def using 0 1 2 3 4 by blast
qed

lemma bfs_inv_init:
  "in_bounds m (start m) \<Longrightarrow> bfs_inv m [(start m, [start m])] {start m}"
proof -
  assume "in_bounds m (start m)"
  then have "frontier_inv m [(start m, [start m])] {start m}" by (rule frontier_inv_init)
  moreover have "\<And>v k. ((passage m) ^^ k) (start m) v \<Longrightarrow> k + 1 \<le> 1 \<Longrightarrow> v = start m"
    by auto
  ultimately show ?thesis unfolding bfs_inv_def by auto
qed

lemma bfs_loop_correct:
  "wf_grid m \<Longrightarrow> bfs_inv m F V \<Longrightarrow>
   \<exists>p. bfs_loop m F V = Inr p
     \<and> ((p = [] \<and> \<not> reachable m)
        \<or> (route m (start m) (end_pos m) p \<and> distinct p
            \<and> (\<forall>k. ((passage m) ^^ k) (start m) (end_pos m) \<longrightarrow> length p \<le> k + 1)))"
proof (induction m F V rule: bfs_loop.induct)
  case (1 m queue seen)
  have fi: "frontier_inv m queue seen" using "1.prems"(2) by (simp add: bfs_inv_def)
  show ?case
  proof (cases queue)
    case Nil
    then show ?thesis using frontier_inv_empty fi by auto
  next
    case (Cons e rest)
    obtain c p where e: "e = (c, p)" by (cases e)
    have q: "queue = (c, p) # rest" using Cons e by simp
    have top: "route m (start m) c p" "distinct p" "in_bounds m c"
      using fi unfolding frontier_inv_def q by simp_all
    have sh: "\<forall>k. ((passage m) ^^ k) (start m) c \<longrightarrow> length p \<le> k + 1"
      using "1.prems"(2) unfolding bfs_inv_def q by simp
    show ?thesis
    proof (cases "c = end_pos m")
      case True
      then show ?thesis using top sh q by (auto simp: route_def)
    next
      case ne: False
      have g: "get_connected_neighbors m (fst c) (snd c) = Inr (successors m c)"
        using get_connected_neighbors_wf[OF "1.prems"(1) top(3)] .
      let ?s = "expand p (successors m c) (seen, rest)"
      have "bfs_inv m (snd ?s) (fst ?s)"
        using bfs_inv_step[OF _ ne, of p rest seen "fst ?s" "snd ?s"] "1.prems"(2) q by simp
      from "1.IH"[OF q refl ne g "1.prems"(1) this]
      show ?thesis using q ne g by simp
    qed
  qed
qed

section \<open>Correctness of the A* solver\<close>

text \<open>
  The invariant of the \<open>while open_set\<close> loop of \<open>solve_astar\<close>. The cells with a
  score are within bounds and their scores are not negative; \<open>start\<close> has score \<open>0\<close>
  and no predecessor; every other scored cell has a predecessor, joined to it by a
  passage and of a smaller score; every item of the queue is a scored cell, and its
  priority is at least the score of its cell plus the heuristic (but for the first
  item, pushed with priority \<open>0\<close>); a scored cell is settled (its successors have
  scores at most one above its own) or has an item in the queue of priority at most
  its score plus the heuristic; and \<open>end\<close>, once scored, has an item in the queue. The
  set \<open>X\<close> holds the cell whose neighbours are being relaxed.
\<close>

definition gval :: "(pos \<rightharpoonup> int) \<Rightarrow> pos \<Rightarrow> int" where
  "gval g v = (case g v of None \<Rightarrow> 0 | Some x \<Rightarrow> x)"

definition settled :: "Maze \<Rightarrow> (pos \<rightharpoonup> int) \<Rightarrow> pos \<Rightarrow> bool" where
  "settled m g u \<longleftrightarrow> (\<forall>v. passage m u v \<longrightarrow> v \<in> dom g \<and> gval g v \<le> gval g u + 1)"

definition astar_inv ::
  "Maze \<Rightarrow> pos set \<Rightarrow> item list \<Rightarrow> (pos \<rightharpoonup> pos) \<Rightarrow> (pos \<rightharpoonup> int) \<Rightarrow> bool" where
  "astar_inv m X open_set came_from g \<longleftrightarrow>
     g (start m) = Some 0 \<and> came_from (start m) = None
     \<and> (\<forall>v \<in> dom g. in_bounds m v \<and> 0 \<le> gval g v)
     \<and> (\<forall>e \<in> set open_set. snd e \<in> dom g)
     \<and> (\<forall>v. v \<noteq> start m \<longrightarrow> (v \<in> dom came_from \<longleftrightarrow> v \<in> dom g))
     \<and> (\<forall>v u. came_from v = Some u \<longrightarrow>
            u \<in> dom g \<and> passage m u v \<and> gval g u + 1 \<le> gval g v)
     \<and> (\<forall>u \<in> dom g. u \<in> X \<or> settled m g u
            \<or> (\<exists>e \<in> set open_set. snd e = u \<and> fst e \<le> gval g u + heuristic u (end_pos m)))
     \<and> (\<forall>e \<in> set open_set. snd e \<noteq> start m \<longrightarrow>
            gval g (snd e) + heuristic (snd e) (end_pos m) \<le> fst e)
     \<and> (end_pos m \<in> dom g \<longrightarrow> end_pos m \<in> snd ` set open_set)"

lemma item_le_fst: "item_le a b \<Longrightarrow> fst a \<le> fst b"
  by (cases a; cases b) auto

lemma item_le_total: "item_le a b \<or> item_le b a"
  by (cases a; cases b) auto

lemma least_item_spec:
  "least_item a bs \<in> set (a # bs) \<and> (\<forall>x \<in> set (a # bs). fst (least_item a bs) \<le> fst x)"
proof (induction bs arbitrary: a)
  case Nil
  then show ?case by simp
next
  case (Cons b bs)
  let ?a = "if item_le a b then a else b"
  have IH: "least_item ?a bs \<in> set (?a # bs)"
    "\<forall>x \<in> set (?a # bs). fst (least_item ?a bs) \<le> fst x"
    using Cons[of ?a] by blast+
  have le: "fst ?a \<le> fst a" "fst ?a \<le> fst b"
    using item_le_fst[of a b] item_le_fst[of b a] item_le_total[of a b] by auto
  have "fst (least_item ?a bs) \<le> fst ?a" using IH(2) by simp
  then have "fst (least_item ?a bs) \<le> fst a" "fst (least_item ?a bs) \<le> fst b"
    using le by linarith+
  moreover have "\<forall>x \<in> set bs. fst (least_item ?a bs) \<le> fst x" using IH(2) by simp
  moreover have "least_item ?a bs \<in> set (a # b # bs)" using IH(1) by auto
  ultimately show ?case by simp
qed

lemma heappop_spec:
  assumes "h \<noteq> []"
  shows "fst (heappop h) \<in> set h" "\<forall>x \<in> set h. fst (fst (heappop h)) \<le> fst x"
    "snd (heappop h) = remove1 (fst (heappop h)) h"
proof -
  have l: "least_item (hd h) (tl h) \<in> set h
      \<and> (\<forall>x \<in> set h. fst (least_item (hd h) (tl h)) \<le> fst x)"
    using least_item_spec[of "hd h" "tl h"] assms by simp
  show "fst (heappop h) \<in> set h"
    using l by (simp add: heappop_def)
  show "\<forall>x \<in> set h. fst (fst (heappop h)) \<le> fst x"
    using l by (simp add: heappop_def)
  show "snd (heappop h) = remove1 (fst (heappop h)) h"
    by (simp add: heappop_def)
qed

lemma heuristic_step: "passage m a b \<Longrightarrow> heuristic a e \<le> heuristic b e + 1"
proof -
  assume "passage m a b"
  then obtain d where "b = step_to a d" by (auto simp: passage_def)
  then show ?thesis
    by (cases d) (auto simp: heuristic_def step_to_def)
qed

lemma heuristic_walk: "((passage m) ^^ j) u e \<Longrightarrow> heuristic u e \<le> int j"
proof (induction j arbitrary: u)
  case 0
  then show ?case by (simp add: heuristic_def)
next
  case (Suc j)
  then obtain v where v: "passage m u v" "((passage m) ^^ j) v e"
    by (meson relpowp_Suc_D2)
  have "heuristic u e \<le> heuristic v e + 1" using v(1) by (rule heuristic_step)
  moreover have "heuristic v e \<le> int j" using Suc.IH v(2) by blast
  ultimately show ?case by simp
qed

lemma astar_frontier_bound:
  assumes inv: "astar_inv m {} os cf g"
  shows "u \<in> dom g \<Longrightarrow> ((passage m) ^^ j) u (end_pos m) \<Longrightarrow>
     (end_pos m \<in> dom g \<and> gval g (end_pos m) \<le> gval g u + int j)
     \<or> (\<exists>e \<in> set os. fst e \<le> gval g u + int j)"
proof (induction j arbitrary: u)
  case 0
  then show ?case by simp
next
  case (Suc j)
  obtain v where v: "passage m u v" "((passage m) ^^ j) v (end_pos m)"
    using Suc.prems(2) by (meson relpowp_Suc_D2)
  have J: "settled m g u
      \<or> (\<exists>e \<in> set os. snd e = u \<and> fst e \<le> gval g u + heuristic u (end_pos m))"
    using inv Suc.prems(1) unfolding astar_inv_def by blast
  show ?case
  proof (cases "settled m g u")
    case True
    then have vd: "v \<in> dom g" and vg: "gval g v \<le> gval g u + 1"
      using v(1) unfolding settled_def by blast+
    from Suc.IH[OF vd v(2)] show ?thesis
    proof
      assume "end_pos m \<in> dom g \<and> gval g (end_pos m) \<le> gval g v + int j"
      then show ?thesis using vg by auto
    next
      assume "\<exists>e \<in> set os. fst e \<le> gval g v + int j"
      then obtain e where "e \<in> set os" "fst e \<le> gval g v + int j" by blast
      then have "e \<in> set os \<and> fst e \<le> gval g u + int (Suc j)" using vg by simp
      then show ?thesis by blast
    qed
  next
    case False
    then obtain e where e: "e \<in> set os" "fst e \<le> gval g u + heuristic u (end_pos m)"
      using J by blast
    have "heuristic u (end_pos m) \<le> int (Suc j)"
      using Suc.prems(2) by (rule heuristic_walk)
    then have "e \<in> set os \<and> fst e \<le> gval g u + int (Suc j)" using e by linarith
    then show ?thesis by blast
  qed
qed

definition gsum :: "(pos \<rightharpoonup> int) \<Rightarrow> nat" where
  "gsum g = (\<Sum>v \<in> dom g. nat (gval g v))"

definition progress :: "Maze \<Rightarrow> (pos \<rightharpoonup> int) \<Rightarrow> (pos \<rightharpoonup> int) \<Rightarrow> bool" where
  "progress m g g' \<longleftrightarrow>
     card (grid m - dom g') < card (grid m - dom g)
     \<or> (card (grid m - dom g') = card (grid m - dom g) \<and> gsum g' < gsum g)"

lemma progress_trans: "progress m g g' \<Longrightarrow> progress m g' g'' \<Longrightarrow> progress m g g''"
  unfolding progress_def by linarith

lemma astar_inv_dom: "astar_inv m X os cf g \<Longrightarrow> dom g \<subseteq> grid m"
  unfolding astar_inv_def grid_def by blast

lemma gval_upd [simp]: "gval (g(n \<mapsto> x)) v = (if v = n then x else gval g v)"
  by (simp add: gval_def)

lemma gval_Some: "g v = Some x \<Longrightarrow> gval g v = x"
  by (simp add: gval_def)

lemma progress_update:
  assumes d: "dom g \<subseteq> grid m" and n: "n \<in> grid m" and x: "0 \<le> x"
    and u: "case g n of None \<Rightarrow> True | Some gn \<Rightarrow> x < gn"
  shows "progress m g (g(n \<mapsto> x))"
proof (cases "g n")
  case None
  then have nm: "n \<in> grid m - dom g" using n by auto
  have eq: "grid m - dom (g(n \<mapsto> x)) = (grid m - dom g) - {n}" by auto
  have "finite (grid m - dom g)" using finite_grid[of m] by simp
  then have "card ((grid m - dom g) - {n}) < card (grid m - dom g)"
    using nm by (rule card_Diff1_less)
  then have "card (grid m - dom (g(n \<mapsto> x))) < card (grid m - dom g)"
    unfolding eq .
  then show ?thesis by (simp add: progress_def)
next
  case (Some gn)
  then have lt: "x < gn" using u by simp
  have nd: "n \<in> dom g" using Some by auto
  have fin: "finite (dom g)" using d finite_grid finite_subset by blast
  have dom: "dom (g(n \<mapsto> x)) = dom g" using nd by auto
  have "gsum g = nat (gval g n) + (\<Sum>v \<in> dom g - {n}. nat (gval g v))"
    unfolding gsum_def using fin nd by (rule sum.remove)
  moreover have "gsum (g(n \<mapsto> x)) = nat (gval (g(n \<mapsto> x)) n)
      + (\<Sum>v \<in> dom g - {n}. nat (gval (g(n \<mapsto> x)) v))"
    unfolding gsum_def dom using fin nd by (rule sum.remove)
  moreover have "(\<Sum>v \<in> dom g - {n}. nat (gval (g(n \<mapsto> x)) v))
      = (\<Sum>v \<in> dom g - {n}. nat (gval g v))"
    by (rule sum.cong) auto
  moreover have "nat (gval (g(n \<mapsto> x)) n) < nat (gval g n)"
    using lt x Some by (simp add: gval_Some)
  ultimately have "gsum (g(n \<mapsto> x)) < gsum g" by linarith
  then show ?thesis using dom by (simp add: progress_def)
qed

lemma relax_update_inv:
  assumes inv: "astar_inv m {c} os cf g" and gc: "g c = Some gc" and pn: "passage m c n"
    and u: "case g n of None \<Rightarrow> True | Some gn \<Rightarrow> gc + 1 < gn"
  shows "astar_inv m {c} (heappush os (gc + 1 + heuristic n (end_pos m), n))
           (cf(n \<mapsto> c)) (g(n \<mapsto> gc + 1))"
    and "\<forall>v \<in> dom g. gval (g(n \<mapsto> gc + 1)) v \<le> gval g v"
proof -
  let ?h = "\<lambda>v. heuristic v (end_pos m)"
  let ?os = "heappush os (gc + 1 + ?h n, n)"
  let ?cf = "cf(n \<mapsto> c)"
  let ?g = "g(n \<mapsto> gc + 1)"
  have a1: "g (start m) = Some 0" "cf (start m) = None"
    and a2: "\<And>v. v \<in> dom g \<Longrightarrow> in_bounds m v \<and> 0 \<le> gval g v"
    and a3: "\<And>e. e \<in> set os \<Longrightarrow> snd e \<in> dom g"
    and a4: "\<And>v. v \<noteq> start m \<Longrightarrow> (v \<in> dom cf \<longleftrightarrow> v \<in> dom g)"
    and a5: "\<And>v u. cf v = Some u \<Longrightarrow> u \<in> dom g \<and> passage m u v \<and> gval g u + 1 \<le> gval g v"
    and a6: "\<And>u. u \<in> dom g \<Longrightarrow> u \<in> {c} \<or> settled m g u
            \<or> (\<exists>e \<in> set os. snd e = u \<and> fst e \<le> gval g u + ?h u)"
    and a7: "\<And>e. e \<in> set os \<Longrightarrow> snd e \<noteq> start m \<Longrightarrow> gval g (snd e) + ?h (snd e) \<le> fst e"
    and a8: "end_pos m \<in> dom g \<longrightarrow> end_pos m \<in> snd ` set os"
    using inv unfolding astar_inv_def by blast+
  have cd: "c \<in> dom g" using gc by auto
  have gc0: "0 \<le> gc" using a2[OF cd] gc by (simp add: gval_Some)
  have gvc: "gval g c = gc" using gc by (rule gval_Some)
  have nc: "n \<noteq> c" using pn by (auto simp: passage_def)
  have nb: "in_bounds m n" using pn by (simp add: passage_def)
  have ns: "n \<noteq> start m"
  proof
    assume "n = start m"
    then have "g n = Some 0" using a1 by simp
    then show False using u gc0 by simp
  qed
  have set_os: "set ?os = insert (gc + 1 + ?h n, n) (set os)" by (simp add: heappush_def)
  have mono: "\<And>v. v \<in> dom g \<Longrightarrow> gval ?g v \<le> gval g v"
  proof -
    fix v assume v: "v \<in> dom g"
    show "gval ?g v \<le> gval g v"
    proof (cases "v = n")
      case True
      then obtain gn where "g n = Some gn" using v by auto
      then show ?thesis using u True by (simp add: gval_Some)
    next
      case False
      then show ?thesis by simp
    qed
  qed
  show "\<forall>v \<in> dom g. gval ?g v \<le> gval g v" using mono by blast
  have 1: "?g (start m) = Some 0 \<and> ?cf (start m) = None" using a1 ns by simp
  have 2: "\<forall>v \<in> dom ?g. in_bounds m v \<and> 0 \<le> gval ?g v"
    using a2 nb gc0 by auto
  have 3: "\<forall>e \<in> set ?os. snd e \<in> dom ?g" using a3 set_os by auto
  have 4: "\<forall>v. v \<noteq> start m \<longrightarrow> (v \<in> dom ?cf \<longleftrightarrow> v \<in> dom ?g)" using a4 by auto
  have 5: "\<forall>v u. ?cf v = Some u \<longrightarrow>
            u \<in> dom ?g \<and> passage m u v \<and> gval ?g u + 1 \<le> gval ?g v"
  proof (intro allI impI)
    fix v u assume vu: "?cf v = Some u"
    show "u \<in> dom ?g \<and> passage m u v \<and> gval ?g u + 1 \<le> gval ?g v"
    proof (cases "v = n")
      case True
      then have "u = c" using vu by simp
      then show ?thesis using True cd pn nc gvc by simp
    next
      case False
      then have "cf v = Some u" using vu by simp
      then have o: "u \<in> dom g" "passage m u v" "gval g u + 1 \<le> gval g v" using a5 by blast+
      have "gval ?g u \<le> gval g u" using mono[OF o(1)] .
      then show ?thesis using o False by auto
    qed
  qed
  have 6: "\<forall>u \<in> dom ?g. u \<in> {c} \<or> settled m ?g u
            \<or> (\<exists>e \<in> set ?os. snd e = u \<and> fst e \<le> gval ?g u + ?h u)"
  proof
    fix u assume ud: "u \<in> dom ?g"
    show "u \<in> {c} \<or> settled m ?g u
            \<or> (\<exists>e \<in> set ?os. snd e = u \<and> fst e \<le> gval ?g u + ?h u)"
    proof (cases "u = n")
      case True
      have "(gc + 1 + ?h n, n) \<in> set ?os" using set_os by simp
      then show ?thesis using True by force
    next
      case False
      then have udg: "u \<in> dom g" using ud by auto
      from a6[OF udg] consider "u = c" | "settled m g u"
        | "\<exists>e \<in> set os. snd e = u \<and> fst e \<le> gval g u + ?h u" by blast
      then show ?thesis
      proof cases
        case 1
        then show ?thesis by simp
      next
        case 2
        have "settled m ?g u"
          unfolding settled_def
        proof (intro allI impI)
          fix v assume "passage m u v"
          then have v: "v \<in> dom g" "gval g v \<le> gval g u + 1"
            using 2 unfolding settled_def by blast+
          have "gval ?g v \<le> gval g v" using mono[OF v(1)] .
          then show "v \<in> dom ?g \<and> gval ?g v \<le> gval ?g u + 1"
            using v False by auto
        qed
        then show ?thesis by blast
      next
        case 3
        then obtain e where "e \<in> set os" "snd e = u" "fst e \<le> gval g u + ?h u" by blast
        then have "e \<in> set ?os \<and> snd e = u \<and> fst e \<le> gval ?g u + ?h u"
          using set_os False by simp
        then show ?thesis by blast
      qed
    qed
  qed
  have 7: "\<forall>e \<in> set ?os. snd e \<noteq> start m \<longrightarrow> gval ?g (snd e) + ?h (snd e) \<le> fst e"
  proof (intro ballI impI)
    fix e assume e: "e \<in> set ?os" "snd e \<noteq> start m"
    from e(1) set_os consider "e = (gc + 1 + ?h n, n)" | "e \<in> set os" by auto
    then show "gval ?g (snd e) + ?h (snd e) \<le> fst e"
    proof cases
      case 1
      then show ?thesis by simp
    next
      case 2
      have "gval ?g (snd e) \<le> gval g (snd e)" using mono[OF a3[OF 2]] .
      then show ?thesis using a7[OF 2 e(2)] by linarith
    qed
  qed
  have 8: "end_pos m \<in> dom ?g \<longrightarrow> end_pos m \<in> snd ` set ?os"
  proof
    assume e: "end_pos m \<in> dom ?g"
    show "end_pos m \<in> snd ` set ?os"
    proof (cases "end_pos m = n")
      case True
      then show ?thesis using set_os by force
    next
      case False
      then have "end_pos m \<in> dom g" using e by auto
      then show ?thesis using a8 set_os by auto
    qed
  qed
  show "astar_inv m {c} ?os ?cf ?g"
    unfolding astar_inv_def using 1 2 3 4 5 6 7 8 by blast
qed

lemma relax_spec:
  "\<forall>n \<in> set ns. passage m c n \<Longrightarrow> astar_inv m {c} os cf g \<Longrightarrow> g c = Some gc \<Longrightarrow>
   \<exists>os' cf' g'. relax m c ns (os, cf, g) = Inr (os', cf', g')
     \<and> astar_inv m {c} os' cf' g' \<and> g' c = Some gc
     \<and> (\<forall>n \<in> set ns. n \<in> dom g' \<and> gval g' n \<le> gc + 1)
     \<and> (\<forall>v \<in> dom g. v \<in> dom g' \<and> gval g' v \<le> gval g v)
     \<and> ((os' = os \<and> g' = g) \<or> progress m g g')"
proof (induction ns arbitrary: os cf g)
  case Nil
  then show ?case by simp
next
  case (Cons n ns)
  have pn: "passage m c n" and pns: "\<forall>n \<in> set ns. passage m c n"
    using Cons.prems(1) by simp_all
  have nc: "n \<noteq> c" using pn by (auto simp: passage_def)
  show ?case
  proof (cases "case g n of None \<Rightarrow> True | Some gn \<Rightarrow> gc + 1 < gn")
    case True
    let ?os = "heappush os (gc + 1 + heuristic n (end_pos m), n)"
    let ?cf = "cf(n \<mapsto> c)"
    let ?g = "g(n \<mapsto> gc + 1)"
    have inv1: "astar_inv m {c} ?os ?cf ?g"
      and mono1: "\<forall>v \<in> dom g. gval ?g v \<le> gval g v"
      using relax_update_inv[OF Cons.prems(2,3) pn True] by blast+
    have gc1: "?g c = Some gc" using Cons.prems(3) nc by simp
    obtain os' cf' g' where r: "relax m c ns (?os, ?cf, ?g) = Inr (os', cf', g')"
      and inv': "astar_inv m {c} os' cf' g'" and gc': "g' c = Some gc"
      and drest: "\<forall>n \<in> set ns. n \<in> dom g' \<and> gval g' n \<le> gc + 1"
      and mono: "\<forall>v \<in> dom ?g. v \<in> dom g' \<and> gval g' v \<le> gval ?g v"
      and pr: "(os' = ?os \<and> g' = ?g) \<or> progress m ?g g'"
      using Cons.IH[OF pns inv1 gc1] by blast
    have e: "relax m c (n # ns) (os, cf, g) = Inr (os', cf', g')"
      using r True Cons.prems(3) by simp
    have "n \<in> dom ?g" by simp
    then have dn: "n \<in> dom g' \<and> gval g' n \<le> gc + 1" using mono by fastforce
    have m2: "\<forall>v \<in> dom g. v \<in> dom g' \<and> gval g' v \<le> gval g v"
    proof
      fix v assume v: "v \<in> dom g"
      then have "v \<in> dom ?g" by auto
      then have "v \<in> dom g' \<and> gval g' v \<le> gval ?g v" using mono by blast
      moreover have "gval ?g v \<le> gval g v" using mono1 v by blast
      ultimately show "v \<in> dom g' \<and> gval g' v \<le> gval g v" by linarith
    qed
    have cd: "c \<in> dom g" using Cons.prems(3) by auto
    have "0 \<le> gval g c" using Cons.prems(2) cd unfolding astar_inv_def by blast
    then have gc0: "0 \<le> gc + 1" using Cons.prems(3) by (simp add: gval_Some)
    have "n \<in> grid m" using pn by (simp add: passage_def grid_def)
    then have "progress m g ?g"
      using progress_update[OF astar_inv_dom[OF Cons.prems(2)] _ gc0 True] by blast
    then have "progress m g g'" using pr progress_trans by blast
    then show ?thesis using e inv' gc' drest dn m2 by auto
  next
    case False
    then obtain gn where gn: "g n = Some gn" "gn \<le> gc + 1"
      by (cases "g n") auto
    obtain os' cf' g' where r: "relax m c ns (os, cf, g) = Inr (os', cf', g')"
      and inv': "astar_inv m {c} os' cf' g'" and gc': "g' c = Some gc"
      and drest: "\<forall>n \<in> set ns. n \<in> dom g' \<and> gval g' n \<le> gc + 1"
      and mono: "\<forall>v \<in> dom g. v \<in> dom g' \<and> gval g' v \<le> gval g v"
      and pr: "(os' = os \<and> g' = g) \<or> progress m g g'"
      using Cons.IH[OF pns Cons.prems(2,3)] by blast
    have e: "relax m c (n # ns) (os, cf, g) = Inr (os', cf', g')"
      using r False Cons.prems(3) by simp
    have "n \<in> dom g" using gn by auto
    then have "n \<in> dom g' \<and> gval g' n \<le> gval g n" using mono by blast
    then have dn: "n \<in> dom g' \<and> gval g' n \<le> gc + 1" using gn by (simp add: gval_Some)
    show ?thesis using e inv' gc' drest dn mono pr by auto
  qed
qed

lemma astar_inv_pop:
  assumes inv: "astar_inv m {} os cf g" and e: "e \<in> set os" and ne: "snd e \<noteq> end_pos m"
  shows "astar_inv m {snd e} (remove1 e os) cf g"
proof -
  have sub: "set (remove1 e os) \<subseteq> set os" by (rule set_remove1_subset)
  have keep: "\<And>x. x \<in> set os \<Longrightarrow> snd x \<noteq> snd e \<Longrightarrow> x \<in> set (remove1 e os)"
    by (metis in_set_remove1)
  have a6: "\<And>u. u \<in> dom g \<Longrightarrow> settled m g u
            \<or> (\<exists>x \<in> set os. snd x = u \<and> fst x \<le> gval g u + heuristic u (end_pos m))"
    and a8: "end_pos m \<in> dom g \<longrightarrow> end_pos m \<in> snd ` set os"
    using inv unfolding astar_inv_def by blast+
  have 6: "\<forall>u \<in> dom g. u \<in> {snd e} \<or> settled m g u
            \<or> (\<exists>x \<in> set (remove1 e os). snd x = u
                  \<and> fst x \<le> gval g u + heuristic u (end_pos m))"
  proof
    fix u assume u: "u \<in> dom g"
    show "u \<in> {snd e} \<or> settled m g u
            \<or> (\<exists>x \<in> set (remove1 e os). snd x = u
                  \<and> fst x \<le> gval g u + heuristic u (end_pos m))"
    proof (cases "u = snd e")
      case True
      then show ?thesis by simp
    next
      case False
      then show ?thesis using a6[OF u] keep by metis
    qed
  qed
  have 8: "end_pos m \<in> dom g \<longrightarrow> end_pos m \<in> snd ` set (remove1 e os)"
  proof
    assume "end_pos m \<in> dom g"
    then obtain x where "x \<in> set os" "snd x = end_pos m" using a8 by auto
    then have "x \<in> set (remove1 e os)" using keep ne by metis
    then show "end_pos m \<in> snd ` set (remove1 e os)" using \<open>snd x = end_pos m\<close> by force
  qed
  show ?thesis
    using inv sub 6 8 unfolding astar_inv_def by (meson subsetD)
qed

lemma astar_inv_settle:
  assumes "astar_inv m {c} os cf g" "settled m g c"
  shows "astar_inv m {} os cf g"
proof -
  have a6: "\<forall>u \<in> dom g. u \<in> {c} \<or> settled m g u
            \<or> (\<exists>e \<in> set os. snd e = u \<and> fst e \<le> gval g u + heuristic u (end_pos m))"
    using assms(1) unfolding astar_inv_def by blast
  have 6: "\<forall>u \<in> dom g. u \<in> {} \<or> settled m g u
            \<or> (\<exists>e \<in> set os. snd e = u \<and> fst e \<le> gval g u + heuristic u (end_pos m))"
  proof
    fix u assume "u \<in> dom g"
    then have "u \<in> {c} \<or> settled m g u
            \<or> (\<exists>e \<in> set os. snd e = u \<and> fst e \<le> gval g u + heuristic u (end_pos m))"
      using a6 by blast
    then show "u \<in> {} \<or> settled m g u
            \<or> (\<exists>e \<in> set os. snd e = u \<and> fst e \<le> gval g u + heuristic u (end_pos m))"
      using assms(2) by blast
  qed
  have rest: "g (start m) = Some 0" "cf (start m) = None"
     "\<forall>v \<in> dom g. in_bounds m v \<and> 0 \<le> gval g v"
     "\<forall>e \<in> set os. snd e \<in> dom g"
     "\<forall>v. v \<noteq> start m \<longrightarrow> (v \<in> dom cf \<longleftrightarrow> v \<in> dom g)"
     "\<forall>v u. cf v = Some u \<longrightarrow>
            u \<in> dom g \<and> passage m u v \<and> gval g u + 1 \<le> gval g v"
     "\<forall>e \<in> set os. snd e \<noteq> start m \<longrightarrow>
            gval g (snd e) + heuristic (snd e) (end_pos m) \<le> fst e"
     "end_pos m \<in> dom g \<longrightarrow> end_pos m \<in> snd ` set os"
    using assms(1) unfolding astar_inv_def by blast+
  show ?thesis
    unfolding astar_inv_def using rest 6 by blast
qed

lemma reconstruct_spec:
  assumes inv: "astar_inv m X os cf g"
  shows "v \<in> dom g \<Longrightarrow>
     \<exists>path. reconstruct cf v acc = Some (acc @ path) \<and> distinct path \<and> start m \<notin> set path
       \<and> (\<forall>x \<in> set path. gval g x \<le> gval g v)
       \<and> successively (\<lambda>a b. passage m b a) path
       \<and> (path = [] \<longrightarrow> v = start m)
       \<and> (path \<noteq> [] \<longrightarrow> hd path = v \<and> passage m (start m) (last path))
       \<and> int (length path) \<le> gval g v"
proof (induction "nat (gval g v)" arbitrary: v acc rule: less_induct)
  case less
  have a1: "cf (start m) = None"
    and a2: "\<And>v. v \<in> dom g \<Longrightarrow> 0 \<le> gval g v"
    and a4: "\<And>v. v \<noteq> start m \<Longrightarrow> (v \<in> dom cf \<longleftrightarrow> v \<in> dom g)"
    and a5: "\<And>v u. cf v = Some u \<Longrightarrow> u \<in> dom g \<and> passage m u v \<and> gval g u + 1 \<le> gval g v"
    using inv unfolding astar_inv_def by blast+
  show ?case
  proof (cases "cf v")
    case None
    then have "v = start m" using a4[of v] less.prems by auto
    moreover have "reconstruct cf v acc = Some (acc @ [])"
      using None by (subst reconstruct.simps) simp
    moreover have "int (length ([]::pos list)) \<le> gval g v" using a2[OF less.prems] by simp
    ultimately show ?thesis by (metis distinct.simps(1) empty_iff list.set(1) successively.simps(1))
  next
    case (Some u)
    have u: "u \<in> dom g" "passage m u v" "gval g u + 1 \<le> gval g v" using a5[OF Some] by blast+
    have "nat (gval g u) < nat (gval g v)" using u(3) a2[OF u(1)] by linarith
    from less.hyps[OF this u(1), of "acc @ [v]"]
    obtain path where p: "reconstruct cf u (acc @ [v]) = Some ((acc @ [v]) @ path)"
      "distinct path" "start m \<notin> set path" "\<forall>x \<in> set path. gval g x \<le> gval g u"
      "successively (\<lambda>a b. passage m b a) path" "path = [] \<longrightarrow> u = start m"
      "path \<noteq> [] \<longrightarrow> hd path = u \<and> passage m (start m) (last path)"
      "int (length path) \<le> gval g u"
      by blast
    let ?path = "v # path"
    have 1: "reconstruct cf v acc = Some (acc @ ?path)"
      using Some p(1) by (subst reconstruct.simps) simp
    have "v \<notin> set path" using p(4) u(3) by fastforce
    then have 2: "distinct ?path" using p(2) by simp
    have "v \<noteq> start m" using Some a1 by auto
    then have 3: "start m \<notin> set ?path" using p(3) by simp
    have 4: "\<forall>x \<in> set ?path. gval g x \<le> gval g v" using p(4) u(3) by fastforce
    have 5: "successively (\<lambda>a b. passage m b a) ?path"
      using p(5,7) u(2) by (auto simp: successively_Cons)
    have 6: "hd ?path = v \<and> passage m (start m) (last ?path)"
      using p(6,7) u(2) by auto
    have 7: "int (length ?path) \<le> gval g v" using p(8) u(3) by simp
    show ?thesis using 1 2 3 4 5 6 7 by blast
  qed
qed

lemma astar_result:
  assumes inv: "astar_inv m X os cf g" and e: "end_pos m \<in> dom g"
  shows "\<exists>path. reconstruct cf (end_pos m) [] = Some path
     \<and> route m (start m) (end_pos m) (rev (path @ [start m]))
     \<and> distinct (rev (path @ [start m]))
     \<and> int (length (rev (path @ [start m]))) \<le> gval g (end_pos m) + 1"
proof -
  obtain path where p: "reconstruct cf (end_pos m) [] = Some ([] @ path)"
      "distinct path" "start m \<notin> set path"
      "successively (\<lambda>a b. passage m b a) path" "path = [] \<longrightarrow> end_pos m = start m"
      "path \<noteq> [] \<longrightarrow> hd path = end_pos m \<and> passage m (start m) (last path)"
      "int (length path) \<le> gval g (end_pos m)"
    using reconstruct_spec[OF inv e, of "[]"] by blast
  let ?q = "rev (path @ [start m])"
  have q: "?q = start m # rev path" by simp
  have "last ?q = end_pos m"
    using p(5,6) by (cases "path = []") (simp_all add: last_rev)
  moreover have "successively (passage m) ?q"
    unfolding q using p(4,6) by (auto simp: successively_Cons hd_rev)
  ultimately have "route m (start m) (end_pos m) ?q" by (simp add: route_def)
  moreover have "distinct ?q" using p(2,3) by simp
  moreover have "int (length ?q) \<le> gval g (end_pos m) + 1" using p(7) by simp
  ultimately show ?thesis using p(1) by auto
qed

definition astar_order :: "Maze \<Rightarrow> ((item list \<times> (pos \<rightharpoonup> int)) \<times> (item list \<times> (pos \<rightharpoonup> int))) set" where
  "astar_order m =
     measures [\<lambda>s. card (grid m - dom (snd s)), \<lambda>s. gsum (snd s), \<lambda>s. length (fst s)]"

lemma heuristic_nonneg: "0 \<le> heuristic a b"
  by (simp add: heuristic_def)

lemma heuristic_self [simp]: "heuristic a a = 0"
  by (simp add: heuristic_def)

lemma astar_inv_init:
  assumes "in_bounds m (start m)"
  shows "astar_inv m {} (heappush [] (0, start m)) Map.empty [start m \<mapsto> 0]"
  unfolding astar_inv_def
  using assms heuristic_nonneg[of "start m" "end_pos m"]
  by (simp add: heappush_def gval_def)

lemma astar_empty_unreachable:
  assumes inv: "astar_inv m {} [] cf g"
  shows "\<not> reachable m"
proof
  assume "reachable m"
  then obtain k where k: "((passage m) ^^ k) (start m) (end_pos m)"
    unfolding reachable_def by (meson rtranclp_imp_relpowp)
  have sd: "start m \<in> dom g" using inv unfolding astar_inv_def by blast
  have "end_pos m \<in> dom g"
    using astar_frontier_bound[OF inv sd k] by simp
  then show False using inv unfolding astar_inv_def by simp
qed

lemma astar_goal_bound:
  assumes inv: "astar_inv m {} os cf g" and ne: "os \<noteq> []"
    and c: "snd (fst (heappop os)) = end_pos m"
    and k: "((passage m) ^^ k) (start m) (end_pos m)"
  shows "gval g (end_pos m) \<le> int k"
proof (cases "end_pos m = start m")
  case True
  then show ?thesis using inv unfolding astar_inv_def by (simp add: gval_Some)
next
  case False
  let ?e = "fst (heappop os)"
  have e: "?e \<in> set os" and least: "\<forall>x \<in> set os. fst ?e \<le> fst x"
    using heappop_spec[OF ne] by blast+
  have sd: "start m \<in> dom g" and g0: "gval g (start m) = 0"
    using inv unfolding astar_inv_def by (auto simp: gval_Some)
  have a7: "gval g (snd ?e) + heuristic (snd ?e) (end_pos m) \<le> fst ?e"
    using inv e c False unfolding astar_inv_def by metis
  then have ge: "gval g (end_pos m) \<le> fst ?e" using c by simp
  from astar_frontier_bound[OF inv sd k] show ?thesis
  proof
    assume "end_pos m \<in> dom g \<and> gval g (end_pos m) \<le> gval g (start m) + int k"
    then show ?thesis using g0 by simp
  next
    assume "\<exists>x \<in> set os. fst x \<le> gval g (start m) + int k"
    then obtain x where "x \<in> set os" "fst x \<le> int k" using g0 by auto
    then show ?thesis using least ge by fastforce
  qed
qed

lemma astar_loop_correct_aux:
  assumes wf: "wf_grid m"
  shows "\<forall>os cf g. s = (os, g) \<longrightarrow> astar_inv m {} os cf g \<longrightarrow>
   (\<exists>p. astar_loop m os cf g = Some (Inr p)
     \<and> ((p = [] \<and> \<not> reachable m)
        \<or> (route m (start m) (end_pos m) p \<and> distinct p
            \<and> (\<forall>k. ((passage m) ^^ k) (start m) (end_pos m) \<longrightarrow> length p \<le> k + 1))))"
proof (rule wf_induct[of "astar_order m" _ s])
  show "wf (astar_order m)" by (simp add: astar_order_def)
next
  fix s
  assume IH: "\<forall>y. (y, s) \<in> astar_order m \<longrightarrow>
    (\<forall>os cf g. y = (os, g) \<longrightarrow> astar_inv m {} os cf g \<longrightarrow>
      (\<exists>p. astar_loop m os cf g = Some (Inr p)
        \<and> ((p = [] \<and> \<not> reachable m)
          \<or> (route m (start m) (end_pos m) p \<and> distinct p
            \<and> (\<forall>k. ((passage m) ^^ k) (start m) (end_pos m) \<longrightarrow> length p \<le> k + 1)))))"
  show "\<forall>os cf g. s = (os, g) \<longrightarrow> astar_inv m {} os cf g \<longrightarrow>
   (\<exists>p. astar_loop m os cf g = Some (Inr p)
     \<and> ((p = [] \<and> \<not> reachable m)
        \<or> (route m (start m) (end_pos m) p \<and> distinct p
            \<and> (\<forall>k. ((passage m) ^^ k) (start m) (end_pos m) \<longrightarrow> length p \<le> k + 1))))"
  proof (intro allI impI)
  fix os cf g
  assume s: "s = (os, g)" and inv: "astar_inv m {} os cf g"
  show "\<exists>p. astar_loop m os cf g = Some (Inr p)
     \<and> ((p = [] \<and> \<not> reachable m)
        \<or> (route m (start m) (end_pos m) p \<and> distinct p
            \<and> (\<forall>k. ((passage m) ^^ k) (start m) (end_pos m) \<longrightarrow> length p \<le> k + 1)))"
  proof (cases "os = []")
    case True
    have "astar_loop m os cf g = Some (Inr [])"
      using True by (subst astar_loop.simps) simp
    moreover have "\<not> reachable m" using astar_empty_unreachable inv True by blast
    ultimately show ?thesis by blast
  next
    case ne: False
    let ?e = "fst (heappop os)"
    let ?c = "snd ?e"
    have e: "?e \<in> set os" and os0: "snd (heappop os) = remove1 ?e os"
      using heappop_spec[OF ne] by blast+
    have cd: "?c \<in> dom g" using inv e unfolding astar_inv_def by blast
    then have cb: "in_bounds m ?c" using inv unfolding astar_inv_def by blast
    show ?thesis
    proof (cases "?c = end_pos m")
      case True
      obtain path where p: "reconstruct cf (end_pos m) [] = Some path"
        "route m (start m) (end_pos m) (rev (path @ [start m]))"
        "distinct (rev (path @ [start m]))"
        "int (length (rev (path @ [start m]))) \<le> gval g (end_pos m) + 1"
        using astar_result[OF inv] cd True by metis
      have "astar_loop m os cf g = Some (Inr (rev (path @ [start m])))"
        using ne True p(1) by (subst astar_loop.simps) simp
      moreover have "\<forall>k. ((passage m) ^^ k) (start m) (end_pos m)
          \<longrightarrow> length (rev (path @ [start m])) \<le> k + 1"
      proof (intro allI impI)
        fix k assume "((passage m) ^^ k) (start m) (end_pos m)"
        then have "gval g (end_pos m) \<le> int k"
          using astar_goal_bound[OF inv ne True] by blast
        then show "length (rev (path @ [start m])) \<le> k + 1" using p(4) by linarith
      qed
      ultimately show ?thesis using p(2,3) by blast
    next
      case False
      obtain gc where gc: "g ?c = Some gc" using cd by auto
      have nb: "get_connected_neighbors m (fst ?c) (snd ?c) = Inr (successors m ?c)"
        using get_connected_neighbors_wf[OF wf cb] .
      have ps: "\<forall>n \<in> set (successors m ?c). passage m ?c n"
        using set_successors[OF cb] by blast
      have inv0: "astar_inv m {?c} (remove1 ?e os) cf g"
        using astar_inv_pop[OF inv e False] .
      obtain os' cf' g' where r: "relax m ?c (successors m ?c) (remove1 ?e os, cf, g)
            = Inr (os', cf', g')"
        and inv': "astar_inv m {?c} os' cf' g'" and gc': "g' ?c = Some gc"
        and dn: "\<forall>n \<in> set (successors m ?c). n \<in> dom g' \<and> gval g' n \<le> gc + 1"
        and pr: "(os' = remove1 ?e os \<and> g' = g) \<or> progress m g g'"
        using relax_spec[OF ps inv0 gc] by blast
      have "settled m g' ?c"
        unfolding settled_def using dn set_successors[OF cb] gc' by (simp add: gval_Some)
      then have inv'': "astar_inv m {} os' cf' g'" using astar_inv_settle[OF inv'] by blast
      have less: "((os', g'), (os, g)) \<in> astar_order m"
        using pr
      proof
        assume "os' = remove1 ?e os \<and> g' = g"
        moreover have "length (remove1 ?e os) < length os"
          using e ne by (simp add: length_remove1)
        ultimately show ?thesis by (simp add: astar_order_def)
      next
        assume "progress m g g'"
        then show ?thesis unfolding progress_def astar_order_def by auto
      qed
      have "astar_loop m os cf g = astar_loop m os' cf' g'"
        using ne False nb r os0 by (subst astar_loop.simps) simp
      moreover have "\<exists>p. astar_loop m os' cf' g' = Some (Inr p)
        \<and> ((p = [] \<and> \<not> reachable m)
          \<or> (route m (start m) (end_pos m) p \<and> distinct p
            \<and> (\<forall>k. ((passage m) ^^ k) (start m) (end_pos m) \<longrightarrow> length p \<le> k + 1)))"
        using IH less inv'' unfolding s by blast
      ultimately show ?thesis by simp
    qed
  qed
  qed
qed

lemma astar_loop_correct:
  assumes "wf_grid m" "astar_inv m {} os cf g"
  shows "\<exists>p. astar_loop m os cf g = Some (Inr p)
     \<and> ((p = [] \<and> \<not> reachable m)
        \<or> (route m (start m) (end_pos m) p \<and> distinct p
            \<and> (\<forall>k. ((passage m) ^^ k) (start m) (end_pos m) \<longrightarrow> length p \<le> k + 1)))"
  using astar_loop_correct_aux[OF assms(1), of "(os, g)"] assms(2) by blast

lemma solve_astar_correct:
  assumes "wf_grid m" "in_bounds m (start m)"
  shows "\<exists>p. solve_astar m = Some (Inr p)
     \<and> ((p = [] \<and> \<not> reachable m)
        \<or> (route m (start m) (end_pos m) p \<and> distinct p
            \<and> (\<forall>k. ((passage m) ^^ k) (start m) (end_pos m) \<longrightarrow> length p \<le> k + 1)))"
  unfolding solve_astar_def
  using astar_loop_correct[OF assms(1) astar_inv_init[OF assms(2)]] .

lemma solve_bfs_correct:
  assumes "wf_grid m" "in_bounds m (start m)"
  shows "\<exists>p. solve_bfs m = Inr p
     \<and> ((p = [] \<and> \<not> reachable m)
        \<or> (route m (start m) (end_pos m) p \<and> distinct p
            \<and> (\<forall>k. ((passage m) ^^ k) (start m) (end_pos m) \<longrightarrow> length p \<le> k + 1)))"
  unfolding solve_bfs_def
  using bfs_loop_correct[OF assms(1) bfs_inv_init[OF assms(2)]] .

lemma solve_dfs_correct:
  assumes "wf_grid m" "in_bounds m (start m)"
  shows "\<exists>p. solve_dfs m = Inr p
     \<and> ((p = [] \<and> \<not> reachable m) \<or> (route m (start m) (end_pos m) p \<and> distinct p))"
  unfolding solve_dfs_def
  using dfs_loop_correct[OF assms(1) frontier_inv_init[OF assms(2)]] .

section \<open>The three solvers\<close>

definition corridor :: Maze where
  "corridor =
     \<lparr>width = 2, height = 1, cell_size = 20,
      cells = [[remove_wall EAST (Cell_init 0 0)], [remove_wall WEST (Cell_init 1 0)]],
      start = (0, 0), end_pos = (1, 0)\<rparr>"


lemma route_walk: "route m a b q \<Longrightarrow> ((passage m) ^^ (length q - 1)) a b"
proof -
  have "successively (passage m) q \<Longrightarrow> q \<noteq> [] \<Longrightarrow>
      ((passage m) ^^ (length q - 1)) (hd q) (last q)" for q
  proof (induction q rule: induct_list012)
    case 1
    then show ?case by simp
  next
    case (2 x)
    then show ?case by simp
  next
    case (3 x y zs)
    then have "((passage m) ^^ (length (y # zs) - 1)) y (last (y # zs))" by simp
    moreover have "passage m x y" using 3 by simp
    ultimately have "((passage m) ^^ Suc (length (y # zs) - 1)) x (last (y # zs))"
      by (meson relpowp_Suc_I2)
    then show ?case by simp
  qed
  then show "route m a b q \<Longrightarrow> ((passage m) ^^ (length q - 1)) a b"
    unfolding route_def by blast
qed

lemma shortest_among_routes:
  assumes "\<forall>k. ((passage m) ^^ k) a b \<longrightarrow> length p \<le> k + 1" "route m a b q"
  shows "length p \<le> length q"
proof -
  have "length p \<le> (length q - 1) + 1" using assms route_walk by blast
  moreover have "q \<noteq> []" using assms(2) by (simp add: route_def)
  ultimately show ?thesis by (cases q) simp_all
qed

lemma corridor_wf: "wf_grid corridor \<and> in_bounds corridor (start corridor)"
  by code_simp

lemma corridor_reachable: "reachable corridor"
proof -
  have "passage corridor (0, 0) (1, 0)" by code_simp
  then show ?thesis by (simp add: reachable_def corridor_def)
qed


text \<open>
  Claim C3: on every well-formed maze whose connectivity graph connects \<open>start\<close> to
  \<open>end\<close>, \<open>solve_bfs\<close> and \<open>solve_astar\<close> each return a route from \<open>start\<close> to
  \<open>end\<close> that no route is shorter than; the two returned paths have the same length.
\<close>

theorem bfs_astar_shortest:
  assumes "wf_grid m" "in_bounds m (start m)" "reachable m"
  shows "\<exists>pb pa. solve_bfs m = Inr pb \<and> solve_astar m = Some (Inr pa)
     \<and> route m (start m) (end_pos m) pb \<and> route m (start m) (end_pos m) pa
     \<and> (\<forall>q. route m (start m) (end_pos m) q \<longrightarrow> length pb \<le> length q)
     \<and> (\<forall>q. route m (start m) (end_pos m) q \<longrightarrow> length pa \<le> length q)
     \<and> length pa = length pb"
proof -
  obtain pb where b: "solve_bfs m = Inr pb" "route m (start m) (end_pos m) pb"
    "\<forall>k. ((passage m) ^^ k) (start m) (end_pos m) \<longrightarrow> length pb \<le> k + 1"
    using solve_bfs_correct[OF assms(1,2)] assms(3) by blast
  obtain pa where a: "solve_astar m = Some (Inr pa)" "route m (start m) (end_pos m) pa"
    "\<forall>k. ((passage m) ^^ k) (start m) (end_pos m) \<longrightarrow> length pa \<le> k + 1"
    using solve_astar_correct[OF assms(1,2)] assms(3) by blast
  have sb: "\<forall>q. route m (start m) (end_pos m) q \<longrightarrow> length pb \<le> length q"
    using shortest_among_routes[OF b(3)] by blast
  have sa: "\<forall>q. route m (start m) (end_pos m) q \<longrightarrow> length pa \<le> length q"
    using shortest_among_routes[OF a(3)] by blast
  have "length pa = length pb" using sa sb a(2) b(2) by (simp add: order_antisym)
  then show ?thesis using a b sa sb by blast
qed

theorem bfs_astar_shortest_witness:
  "wf_grid corridor \<and> in_bounds corridor (start corridor) \<and> reachable corridor
   \<and> solve_bfs corridor = Inr [(0, 0), (1, 0)]
   \<and> solve_astar corridor = Some (Inr [(0, 0), (1, 0)])
   \<and> route corridor (start corridor) (end_pos corridor) [(0, 0), (1, 0)]
   \<and> \<not> route corridor (start corridor) (end_pos corridor) [(0, 0)]"
proof -
  have b: "solve_bfs corridor = Inr [(0, 0), (1, 0)]" by code_simp
  have a: "solve_astar corridor = Some (Inr [(0, 0), (1, 0)])" by code_simp
  have r: "route corridor (start corridor) (end_pos corridor) [(0, 0), (1, 0)]"
    and s: "\<forall>q. route corridor (start corridor) (end_pos corridor) q \<longrightarrow> 2 \<le> length q"
    using bfs_astar_shortest [of corridor] corridor_wf corridor_reachable b
    by (auto simp: numeral_2_eq_2)
  have "\<not> route corridor (start corridor) (end_pos corridor) [(0, 0)]"
    using s by fastforce
  then show ?thesis using corridor_wf corridor_reachable a b r by blast
qed

text \<open>
  Claim C4: on every well-formed maze whose connectivity graph connects \<open>start\<close> to
  \<open>end\<close>, the path returned by each of the three solvers begins with \<open>start\<close>, ends
  with \<open>end\<close>, and each of its elements is joined to the next by a passage: the next
  is one grid step away, within bounds, and there is no wall towards it.
\<close>

theorem solvers_return_routes:
  assumes "wf_grid m" "in_bounds m (start m)" "reachable m"
  shows "\<exists>pb pd pa. solve_bfs m = Inr pb \<and> solve_dfs m = Inr pd
     \<and> solve_astar m = Some (Inr pa)
     \<and> (\<forall>p \<in> {pb, pd, pa}. p \<noteq> [] \<and> hd p = start m \<and> last p = end_pos m
           \<and> successively (passage m) p)"
proof -
  obtain pb where b: "solve_bfs m = Inr pb" "route m (start m) (end_pos m) pb"
    using solve_bfs_correct[OF assms(1,2)] assms(3) by blast
  obtain pd where d: "solve_dfs m = Inr pd" "route m (start m) (end_pos m) pd"
    using solve_dfs_correct[OF assms(1,2)] assms(3) by blast
  obtain pa where a: "solve_astar m = Some (Inr pa)" "route m (start m) (end_pos m) pa"
    using solve_astar_correct[OF assms(1,2)] assms(3) by blast
  show ?thesis using a b d unfolding route_def by blast
qed

theorem solvers_return_routes_witness:
  "wf_grid corridor \<and> in_bounds corridor (start corridor) \<and> reachable corridor
   \<and> solve_bfs corridor = Inr [(0, 0), (1, 0)] \<and> solve_dfs corridor = Inr [(0, 0), (1, 0)]
   \<and> solve_astar corridor = Some (Inr [(0, 0), (1, 0)])
   \<and> successively (passage corridor) [(0, 0), (1, 0)]"
proof -
  have b: "solve_bfs corridor = Inr [(0, 0), (1, 0)]" by code_simp
  have d: "solve_dfs corridor = Inr [(0, 0), (1, 0)]" by code_simp
  have a: "solve_astar corridor = Some (Inr [(0, 0), (1, 0)])" by code_simp
  have "successively (passage corridor) [(0, 0), (1, 0)]"
    using solvers_return_routes [of corridor] corridor_wf corridor_reachable b by auto
  then show ?thesis using corridor_wf corridor_reachable a b d by blast
qed



text \<open>
  Claim C10: the path returned by each of the three solvers has no cell twice.
\<close>

theorem solvers_return_simple_paths:
  assumes "wf_grid m" "in_bounds m (start m)"
  shows "\<exists>pb pd pa. solve_bfs m = Inr pb \<and> solve_dfs m = Inr pd
     \<and> solve_astar m = Some (Inr pa)
     \<and> distinct pb \<and> distinct pd \<and> distinct pa"
proof -
  obtain pb where b: "solve_bfs m = Inr pb" "distinct pb"
    using solve_bfs_correct[OF assms] by auto
  obtain pd where d: "solve_dfs m = Inr pd" "distinct pd"
    using solve_dfs_correct[OF assms] by auto
  obtain pa where a: "solve_astar m = Some (Inr pa)" "distinct pa"
    using solve_astar_correct[OF assms] by auto
  show ?thesis using a b d by blast
qed

theorem solvers_return_simple_paths_witness:
  "wf_grid corridor \<and> in_bounds corridor (start corridor)
   \<and> (\<exists>pb pd pa. solve_bfs corridor = Inr pb \<and> solve_dfs corridor = Inr pd
        \<and> solve_astar corridor = Some (Inr pa)
        \<and> pb \<noteq> [] \<and> distinct pb \<and> distinct pd \<and> distinct pa)"
proof -
  have b: "solve_bfs corridor = Inr [(0, 0), (1, 0)]" by code_simp
  show ?thesis
    using solvers_return_simple_paths [of corridor] corridor_wf b by auto
qed

section \<open>Start and end coincide\<close>

text \<open>
  Claim C8: when \<open>start\<close> equals \<open>end\<close>, each of the three solvers returns the path
  \<open>[start]\<close> (and none of them raises or runs forever).
\<close>

theorem start_is_end_single_path:
  "start m = end_pos m \<Longrightarrow>
     solve_bfs m = Inr [start m] \<and> solve_dfs m = Inr [start m]
     \<and> solve_astar m = Some (Inr [start m])"
  by (simp add: solve_bfs_def solve_dfs_def solve_astar_def astar_loop.simps
      heappush_def heappop_def reconstruct.simps)

theorem start_is_end_single_path_witness:
  "start \<lparr>width = 1, height = 1, cell_size = 20, cells = [[Cell_init 0 0]],
          start = (0, 0), end_pos = (0, 0)\<rparr>
     = end_pos \<lparr>width = 1, height = 1, cell_size = 20, cells = [[Cell_init 0 0]],
          start = (0, 0), end_pos = (0, 0)\<rparr>
   \<and> solve_bfs \<lparr>width = 1, height = 1, cell_size = 20, cells = [[Cell_init 0 0]],
          start = (0, 0), end_pos = (0, 0)\<rparr> = Inr [(0, 0)]
   \<and> solve_dfs \<lparr>width = 1, height = 1, cell_size = 20, cells = [[Cell_init 0 0]],
          start = (0, 0), end_pos = (0, 0)\<rparr> = Inr [(0, 0)]
   \<and> solve_astar \<lparr>width = 1, height = 1, cell_size = 20, cells = [[Cell_init 0 0]],
          start = (0, 0), end_pos = (0, 0)\<rparr> = Some (Inr [(0, 0)])"
  using start_is_end_single_path
    [of "\<lparr>width = 1, height = 1, cell_size = 20, cells = [[Cell_init 0 0]],
          start = (0, 0), end_pos = (0, 0)\<rparr>"]
  by simp

end
